theory Spec2Isabelle
  imports Complex_Main "HOL-Library.Char_ord" "HOL-Library.List_Lexorder" "HOL-Library.Multiset"
begin

section \<open>Strings\<close>

text \<open>
  A Python \<open>str\<close> is modelled as a \<open>string\<close>, that is a list of \<open>char\<close>, each \<open>char\<close>
  being one code point below 256. The character classes below are those of Python 3 on
  these code points: \<open>str.isspace\<close> (which is also what \<open>\s\<close> matches in a \<open>str\<close> pattern),
  \<open>str.lower\<close>, and the word characters \<open>\w\<close> that decide \<open>\b\<close>.
\<close>

definition is_space :: "char \<Rightarrow> bool" where
  "is_space c =
     (let n = (of_char c :: nat)
      in (9 \<le> n \<and> n \<le> 13) \<or> (28 \<le> n \<and> n \<le> 32) \<or> n = 133 \<or> n = 160)"

definition lower_char :: "char \<Rightarrow> char" where
  "lower_char c =
     (let n = (of_char c :: nat)
      in if (65 \<le> n \<and> n \<le> 90) \<or> (192 \<le> n \<and> n \<le> 222 \<and> n \<noteq> 215)
         then char_of (n + 32) else c)"

definition lower :: "string \<Rightarrow> string" where
  "lower s = map lower_char s"

text \<open>
  \<open>str.upper\<close>, character by character: the letters a to z and those from U+00E0 to
  U+00FE (but the division sign) move down by 32, and the sharp s U+00DF becomes the two
  letters \<open>SS\<close>. The upper-case forms of U+00B5 and U+00FF lie beyond code point 255;
  the two characters are kept as they are, which makes no difference where the result
  is compared with ASCII text, the only use the code makes of it.
\<close>

definition upper_char :: "char \<Rightarrow> string" where
  "upper_char c =
     (let n = (of_char c :: nat)
      in if (97 \<le> n \<and> n \<le> 122) \<or> (224 \<le> n \<and> n \<le> 254 \<and> n \<noteq> 247)
         then [char_of (n - 32)]
         else if n = 223 then ''SS''
         else [c])"

definition upper :: "string \<Rightarrow> string" where
  "upper s = concat (map upper_char s)"

definition is_word :: "char \<Rightarrow> bool" where
  "is_word c =
     (let n = (of_char c :: nat)
      in (48 \<le> n \<and> n \<le> 57) \<or> (65 \<le> n \<and> n \<le> 90) \<or> n = 95 \<or> (97 \<le> n \<and> n \<le> 122)
         \<or> n = 170 \<or> n = 178 \<or> n = 179 \<or> n = 181 \<or> n = 185 \<or> n = 186
         \<or> n = 188 \<or> n = 189 \<or> n = 190
         \<or> (192 \<le> n \<and> n \<noteq> 215 \<and> n \<noteq> 247))"

text \<open>\<open>s.strip()\<close>: whitespace removed at both ends.\<close>

definition rstrip :: "string \<Rightarrow> string" where
  "rstrip s = rev (dropWhile is_space (rev s))"

definition strip :: "string \<Rightarrow> string" where
  "strip s = rstrip (dropWhile is_space s)"

text \<open>\<open>s.startswith(p)\<close>.\<close>

definition startswith :: "string \<Rightarrow> string \<Rightarrow> bool" where
  "startswith s p = (take (length p) s = p)"

section \<open>The SQL normalizer (utils.py, postprocess\_sql)\<close>

text \<open>
  \<open>re.search(r'\b(select|insert)\b', sql, re.IGNORECASE)\<close>. A position matches when one of
  the two keywords stands there, compared without case, with a word boundary before and
  after it. \<open>prev\<close> is the character before the position (\<open>None\<close> at the start of the text).
\<close>

definition word_boundary :: "char option \<Rightarrow> char option \<Rightarrow> bool" where
  "word_boundary a b =
     ((case a of None \<Rightarrow> False | Some c \<Rightarrow> is_word c)
      \<noteq> (case b of None \<Rightarrow> False | Some c \<Rightarrow> is_word c))"

definition first_char :: "string \<Rightarrow> char option" where
  "first_char s = (case s of [] \<Rightarrow> None | c # _ \<Rightarrow> Some c)"

definition keyword_here :: "char option \<Rightarrow> string \<Rightarrow> bool" where
  "keyword_here prev s =
     (word_boundary prev (first_char s)
      \<and> (lower (take 6 s) = ''select'' \<or> lower (take 6 s) = ''insert'')
      \<and> word_boundary (Some (s ! 5)) (first_char (drop 6 s)))"

fun search_from :: "char option \<Rightarrow> string \<Rightarrow> nat option" where
  "search_from prev [] = None"
| "search_from prev (c # cs) =
     (if keyword_here prev (c # cs) then Some 0
      else map_option Suc (search_from (Some c) cs))"

definition sql_start :: "string \<Rightarrow> nat option" where
  "sql_start s = search_from None s"

text \<open>
  \<open>re.sub(r"```sql|```", "", sql)\<close>: scanning from the left, a fence followed by \<open>sql\<close>
  is dropped as a whole, any other fence alone.
\<close>

definition fence :: string where
  "fence = [CHR 0x60, CHR 0x60, CHR 0x60]"

fun strip_fences :: "string \<Rightarrow> string" where
  "strip_fences [] = []"
| "strip_fences (c # cs) =
     (if startswith (c # cs) (fence @ ''sql'') then strip_fences (drop 5 cs)
      else if startswith (c # cs) fence then strip_fences (drop 2 cs)
      else c # strip_fences cs)"

text \<open>\<open>re.sub(r"^sql[:\s]*", "", sql)\<close>: the pattern can only match at the very start.\<close>

definition strip_sql_label :: "string \<Rightarrow> string" where
  "strip_sql_label s =
     (if startswith s ''sql''
      then dropWhile (\<lambda>c. c = CHR '':'' \<or> is_space c) (drop 3 s)
      else s)"

text \<open>\<open>sql.replace("`", "")\<close>.\<close>

definition strip_backticks :: "string \<Rightarrow> string" where
  "strip_backticks s = filter (\<lambda>c. c \<noteq> CHR 0x60) s"

text \<open>\<open>re.sub(r"\s+", " ", sql)\<close>: every maximal run of whitespace becomes one space.\<close>

function collapse_ws :: "string \<Rightarrow> string" where
  "collapse_ws [] = []"
| "collapse_ws (c # cs) =
     (if is_space c then CHR '' '' # collapse_ws (dropWhile is_space cs)
      else c # collapse_ws cs)"
  by pat_completeness auto
termination
  by (relation "measure length") (auto simp: less_Suc_eq_le length_dropWhile_le)

text \<open>
  \<open>re.sub(r"\s+,", ",", sql)\<close>: a position matches when the whitespace run that starts
  there is followed at once by a comma (a shorter run cannot be, its next character
  being whitespace); the run and the comma are replaced by the comma.
\<close>

function space_comma :: "string \<Rightarrow> string" where
  "space_comma [] = []"
| "space_comma (c # cs) =
     (if is_space c \<and> first_char (dropWhile is_space cs) = Some CHR '',''
      then CHR '','' # space_comma (tl (dropWhile is_space cs))
      else c # space_comma cs)"
  by pat_completeness auto
termination
proof (relation "measure length")
  fix c :: char and cs :: string
  have "length (tl (dropWhile is_space cs)) \<le> length (dropWhile is_space cs)"
    by simp
  also have "\<dots> \<le> length cs"
    by (rule length_dropWhile_le)
  finally show "(tl (dropWhile is_space cs), c # cs) \<in> measure length"
    by simp
qed simp_all

definition postprocess_sql :: "string \<Rightarrow> string" where
  "postprocess_sql sql0 =
     (let sql1 = (case sql_start sql0 of Some i \<Rightarrow> drop i sql0 | None \<Rightarrow> sql0);
          sql2 = lower (strip sql1);
          sql3 = strip_fences sql2;
          sql4 = strip_sql_label sql3;
          sql5 = strip_fences sql4;
          sql6 = strip_backticks sql5;
          sql7 = strip (collapse_ws sql6);
          sql8 = space_comma sql7
      in if sql8 \<noteq> [] \<and> last sql8 = CHR '';'' then strip (butlast sql8) else sql8)"

section \<open>Exceptions\<close>

text \<open>
  The exceptions that the modelled code raises. \<open>ValueError\<close> carries its message;
  \<open>TypeError\<close> and \<open>AttributeError\<close> are raised by the interpreter (a value that is not
  iterable or not hashable given to \<open>set\<close>, a value without \<open>upper\<close>);
  \<open>JSONDecodeError\<close> and \<open>RecursionError\<close> come from \<open>json.loads\<close>, and
  \<open>DatabaseError\<close>, with its message, from \<open>sqlite3\<close>.
\<close>

datatype exn =
    ValueError string
  | TypeError
  | AttributeError
  | JSONDecodeError
  | RecursionError
  | DatabaseError string

section \<open>JSON values\<close>

text \<open>
  What \<open>json.loads\<close> returns: \<open>None\<close>, \<open>bool\<close>, \<open>int\<close>, \<open>float\<close>, \<open>str\<close>, \<open>list\<close>, and \<open>dict\<close>
  (its items in insertion order, keys distinct). Of a float the code only observes
  whether it is zero.
\<close>

datatype json =
    JNull
  | JBool bool
  | JInt int
  | JFloat real
  | JStr string
  | JArr "json list"
  | JObj "(string \<times> json) list"

text \<open>\<open>bool(v)\<close>, the test of \<open>if v\<close>.\<close>

fun truthy :: "json \<Rightarrow> bool" where
  "truthy JNull = False"
| "truthy (JBool b) = b"
| "truthy (JInt i) = (i \<noteq> 0)"
| "truthy (JFloat r) = (r \<noteq> 0)"
| "truthy (JStr s) = (s \<noteq> [])"
| "truthy (JArr xs) = (xs \<noteq> [])"
| "truthy (JObj kvs) = (kvs \<noteq> [])"

fun hashable :: "json \<Rightarrow> bool" where
  "hashable (JArr xs) = False"
| "hashable (JObj kvs) = False"
| "hashable v = True"

text \<open>What iterating over a value yields; a \<open>TypeError\<close> when it is not iterable.\<close>

fun iterate :: "json \<Rightarrow> exn + json list" where
  "iterate (JStr s) = Inr (map (\<lambda>c. JStr [c]) s)"
| "iterate (JArr xs) = Inr xs"
| "iterate (JObj kvs) = Inr (map (\<lambda>kv. JStr (fst kv)) kvs)"
| "iterate v = Inl TypeError"

text \<open>
  The library functions the code calls and the repository does not define:
  \<open>json.loads\<close> (\<open>Inl\<close> the exception it raises: \<open>JSONDecodeError\<close> on a text that is not
  JSON, but also \<open>RecursionError\<close> on a text nested too deeply and a plain \<open>ValueError\<close>
  on a number with too many digits), \<open>json.dumps\<close>, and the order in which
  \<open>list(set(xs))\<close> lists the distinct elements of \<open>xs\<close>, which Python leaves open.
\<close>

record pylib =
  json_loads :: "string \<Rightarrow> exn + json"
  json_dumps :: "json \<Rightarrow> string"
  list_of_set :: "json list \<Rightarrow> json list"

text \<open>\<open>list(set(v))\<close>: \<open>v\<close> must be iterable and its elements hashable.\<close>

definition list_set :: "'z pylib_scheme \<Rightarrow> json \<Rightarrow> exn + json list" where
  "list_set lib v =
     (case iterate v of
        Inl e \<Rightarrow> Inl e
      | Inr xs \<Rightarrow> if list_all hashable xs then Inr (list_of_set lib xs) else Inl TypeError)"

section \<open>The clause detector (analyze\_by\_subproblems.py)\<close>

text \<open>\<open>p in t\<close> on strings: \<open>p\<close> occurs in \<open>t\<close> as a contiguous part.\<close>

fun contains :: "string \<Rightarrow> string \<Rightarrow> bool" where
  "contains [] p = (p = [])"
| "contains (c # cs) p = (startswith (c # cs) p \<or> contains cs p)"

definition clause_patterns :: "(string \<times> string list) list" where
  "clause_patterns =
     [(''SELECT'', [''SELECT'', ''SELECTING'', ''COLUMNS'', ''FIELDS'']),
      (''FROM'', [''FROM'', ''TABLE'', ''TABLES'']),
      (''WHERE'', [''WHERE'', ''FILTER'', ''CONDITION'', ''FILTERING'']),
      (''JOIN'', [''JOIN'', ''JOINING'', ''INNER JOIN'', ''LEFT JOIN'', ''RIGHT JOIN'',
                  ''OUTER JOIN'']),
      (''GROUP BY'', [''GROUP BY'', ''GROUPING'', ''AGGREGATE'', ''AGGREGATION'']),
      (''HAVING'', [''HAVING'']),
      (''ORDER BY'', [''ORDER BY'', ''SORT'', ''SORTING'', ''ORDERING'']),
      (''LIMIT'', [''LIMIT'', ''TOP'', ''FIRST'']),
      (''UNION'', [''UNION'']),
      (''INTERSECT'', [''INTERSECT'']),
      (''EXCEPT'', [''EXCEPT'', ''MINUS'']),
      (''DISTINCT'', [''DISTINCT'', ''UNIQUE'']),
      (''SUBQUERY'', [''SUBQUERY'', ''NESTED'', ''INNER QUERY''])]"

definition extract_clauses_from_text :: "string \<Rightarrow> string list" where
  "extract_clauses_from_text text =
     (let text_upper = upper text
      in map fst (filter (\<lambda>cp. list_ex (contains text_upper) (snd cp)) clause_patterns))"

text \<open>
  One round of the loops of Method 2 and Method 3: an object with a \<open>clause\<close> key gives
  that value, a string gives the clauses found in it, anything else nothing.
\<close>

fun item_clauses :: "json \<Rightarrow> json list" where
  "item_clauses (JObj kvs) = (case map_of kvs ''clause'' of Some v \<Rightarrow> [v] | None \<Rightarrow> [])"
| "item_clauses (JStr s) = map JStr (extract_clauses_from_text s)"
| "item_clauses v = []"

text \<open>The body of the \<open>try\<close>, once \<open>json.loads\<close> has returned \<open>data\<close>: the value of \<open>clauses\<close>.\<close>

fun clauses_of_data :: "'z pylib_scheme \<Rightarrow> json \<Rightarrow> json" where
  "clauses_of_data lib (JObj kvs) =
     (case map_of kvs ''clauses'' of
        Some v \<Rightarrow> v
      | None \<Rightarrow>
         (case map_of kvs ''subproblems'' of
            Some (JArr subproblems) \<Rightarrow> JArr (concat (map item_clauses subproblems))
          | Some v \<Rightarrow> JArr []
          | None \<Rightarrow> JArr (map JStr (extract_clauses_from_text (json_dumps lib (JObj kvs))))))"
| "clauses_of_data lib (JArr items) = JArr (concat (map item_clauses items))"
| "clauses_of_data lib data = JArr (map JStr (extract_clauses_from_text (json_dumps lib data)))"

text \<open>The last line: \<open>list(set(clauses)) if clauses else []\<close>.\<close>

definition deduplicate :: "'z pylib_scheme \<Rightarrow> json \<Rightarrow> exn + json list" where
  "deduplicate lib clauses = (if truthy clauses then list_set lib clauses else Inr [])"

text \<open>
  Only \<open>json.JSONDecodeError\<close> is caught, and answered by the extraction from the text;
  any other exception of \<open>json.loads\<close> leaves the function.
\<close>

definition parse_subproblems :: "'z pylib_scheme \<Rightarrow> string \<Rightarrow> exn + json list" where
  "parse_subproblems lib sub_json =
     (case json_loads lib sub_json of
        Inr data \<Rightarrow> deduplicate lib (clauses_of_data lib data)
      | Inl e \<Rightarrow>
          if e = JSONDecodeError
          then deduplicate lib (JArr (map JStr (extract_clauses_from_text sub_json)))
          else Inl e)"

section \<open>Extracting the JSON object (utils.py, clean\_json)\<close>

text \<open>\<open>text.find(c)\<close> and \<open>text.rfind(c)\<close> for one character; \<open>None\<close> stands for \<open>-1\<close>.\<close>

fun find_char :: "char \<Rightarrow> string \<Rightarrow> nat option" where
  "find_char x [] = None"
| "find_char x (c # cs) = (if c = x then Some 0 else map_option Suc (find_char x cs))"

definition rfind_char :: "char \<Rightarrow> string \<Rightarrow> nat option" where
  "rfind_char x s =
     (case find_char x (rev s) of None \<Rightarrow> None | Some i \<Rightarrow> Some (length s - 1 - i))"

text \<open>\<open>s.strip("`\n\r ")\<close>.\<close>

definition json_junk :: "char \<Rightarrow> bool" where
  "json_junk c = (c = CHR 0x60 \<or> c = CHR 0x0A \<or> c = CHR 0x0D \<or> c = CHR '' '')"

definition strip_junk :: "string \<Rightarrow> string" where
  "strip_junk s = rev (dropWhile json_junk (rev (dropWhile json_junk s)))"

definition clean_json :: "string \<Rightarrow> exn + string" where
  "clean_json text =
     (case find_char CHR ''{'' text of
        None \<Rightarrow> Inl (ValueError ''No JSON object found'')
      | Some start \<Rightarrow>
         (case rfind_char CHR ''}'' text of
            None \<Rightarrow> Inl (ValueError (''No closing '' @ [CHR 0x27] @ ''}'' @ [CHR 0x27] @ '' found''))
          | Some end \<Rightarrow> Inr (strip_junk (drop start (take (end + 1) text)))))"

section \<open>The clause policy table (utils.py, clause\_specific\_prompts)\<close>

text \<open>
  A triple-quoted literal of the source, given by its lines: it opens with a line break,
  and every line of the list follows a line break.
\<close>

definition block :: "string list \<Rightarrow> string" where
  "block ls = concat (map (\<lambda>l. CHR 0x0A # l) ls)"

definition group_by_plan :: string where
  "group_by_plan = block
    [''    GROUP BY detected:'',
     ''    - All non-aggregated SELECT columns must be in GROUP BY.'',
     ''    - GROUP BY should appear after WHERE but before HAVING/ORDER BY.'',
     '''',
     ''    If HAVING is present:'',
     ''    - Use HAVING to filter on aggregates, not WHERE.'',
     ''    '']"

definition group_by_sql :: string where
  "group_by_sql = block
    [''    Ensure:'',
     ''    - All non-aggregated SELECT columns are in GROUP BY.'',
     ''    - HAVING filters only aggregated expressions.'',
     ''    - HAVING appears after GROUP BY.'',
     ''    - Use WHERE for pre-aggregation filters only.'',
     ''    '']"

definition order_by_plan :: string where
  "order_by_plan = block
    [''    ORDER BY detected:'',
     ''    - Specify column(s) to sort on with direction (ASC/DESC).'',
     ''    - ORDER BY should be planned after WHERE/ GROUP BY / HAVING steps.'',
     ''    - If LIMIT or OFFSET is present, ORDER BY must come before them.'',
     ''    '']"

definition order_by_sql :: string where
  "order_by_sql = block
    [''    Ensure:'',
     ''    - ORDER BY references valid columns (or aliases defined in SELECT/grouping).'',
     ''    - ORDER BY is placed after GROUP BY or HAVING if those exist.'',
     ''    - If LIMIT is used, ORDER BY must guarantee deterministic results.'',
     ''    '']"

definition limit_plan :: string where
  "limit_plan = block
    [''    LIMIT detected:'',
     ''    - Decide which rows are returned: use ORDER BY to define which subset is used.'',
     ''    - Plan ORDER BY step before LIMIT to ensure consistent results.'',
     ''    '']"

definition limit_sql :: string where
  "limit_sql = block
    [''    Ensure:'',
     ''    - Use ORDER BY before LIMIT for deterministic row selection.'',
     ''    - LIMIT appears as the final clause after ORDER BY.'',
     ''    '']"

definition join_plan :: string where
  "join_plan = block
    [''    JOIN detected:'',
     ''    - Plan all necessary JOINs between tables, listing each table and ON condition.'',
     ''    - Each JOIN must reference valid foreign key paths from schema.'',
     ''    - Avoid Cartesian products: every JOIN must include a precise ON clause.'',
     ''    '']"

definition join_sql :: string where
  "join_sql = block
    [''    Ensure:'',
     ''    - Include all tables referenced in the plan via JOINS.'',
     ''    - Each JOIN uses correct foreign key column(s) in ON clause.'',
     ''    - Do not introduce unintended full joins or missing JOIN conditions.'',
     ''    '']"

definition union_plan :: string where
  "union_plan = block
    [''    UNION detected:'',
     ''    - Both subqueries must select the same number of columns with compatible types.'',
     ''    - Specify UNION vs UNION ALL depending on whether duplicates should be removed.'',
     ''    - Plan ORDER BY / LIMIT after the entire UNION block.'',
     ''    '']"

definition union_sql :: string where
  "union_sql = block
    [''    Ensure:'',
     ''    - Each UNION branch has identical column count and data types.'',
     ''    - Use DISTINCT (default UNION) or ALL explicitly.'',
     ''    - If ORDER BY or LIMIT is applied, apply it only at the end of the UNION output.'',
     ''    '']"

definition intersect_plan :: string where
  "intersect_plan = block
    [''    INTERSECT detected:'',
     ''    - Both queries must select the same number and type of columns.'',
     ''    - Plan for duplicates: INTERSECT removes duplicates unless INTERSECT ALL is specified.'',
     ''    - ORDER BY / LIMIT clauses apply after the intersect.'',
     ''    '']"

definition intersect_sql :: string where
  "intersect_sql = block
    [''    Ensure:'',
     ''    - Each INTERSECT branch selects same number and types of columns.'',
     ''    - Use INTERSECT or INTERSECT ALL as needed.'',
     ''    - Place ORDER BY and LIMIT after the intersect expression.'',
     ''    '']"

definition except_plan :: string where
  "except_plan = block
    [''    EXCEPT detected:'',
     ''    - Both queries must select the same number and type of columns.'',
     ''    - Plan which side to apply EXCEPT (left - right rows).'',
     ''    - ORDER BY / LIMIT should be planned after the EXCEPT block.'',
     ''    '']"

definition except_sql :: string where
  "except_sql = block
    [''    Ensure:'',
     ''    - EXCEPT branches share identical column count/types.'',
     ''    - Use EXCEPT or EXCEPT ALL appropriately.'',
     ''    - Apply ORDER BY and LIMIT only to the final output of the EXCEPT.'',
     ''    '']"

text \<open>One round of the loop: the tag is put in upper case and each test appends its texts.\<close>

definition append_if :: "bool \<Rightarrow> string \<times> string \<Rightarrow> string \<times> string \<Rightarrow> string \<times> string" where
  "append_if b texts acc = (if b then (fst acc @ fst texts, snd acc @ snd texts) else acc)"

definition clause_step :: "string \<times> string \<Rightarrow> string \<Rightarrow> string \<times> string" where
  "clause_step acc clause0 =
     (let clause = upper clause0;
          acc1 = append_if (clause \<in> set [''HAVING'', ''GROUPBY'', ''GROUP BY''])
                   (group_by_plan, group_by_sql) acc;
          acc2 = append_if (clause \<in> set [''ORDERBY'', ''ORDER BY''])
                   (order_by_plan, order_by_sql) acc1;
          acc3 = append_if (clause = ''LIMIT'') (limit_plan, limit_sql) acc2;
          acc4 = append_if (clause = ''JOIN'') (join_plan, join_sql) acc3;
          acc5 = append_if (clause = ''UNION'') (union_plan, union_sql) acc4;
          acc6 = append_if (clause = ''INTERSECT'') (intersect_plan, intersect_sql) acc5
      in append_if (clause = ''EXCEPT'') (except_plan, except_sql) acc6)"

definition clause_specific_prompts :: "string list \<Rightarrow> string \<times> string" where
  "clause_specific_prompts clauses = foldl clause_step ([], []) clauses"

text \<open>
  The call as the pipeline makes it, on whatever the detector returned: \<open>clause.upper()\<close>
  raises \<open>AttributeError\<close> at the first element that is not a string.
\<close>

fun str_of_json :: "json \<Rightarrow> string option" where
  "str_of_json (JStr s) = Some s"
| "str_of_json v = None"

definition clause_specific_prompts_json :: "json list \<Rightarrow> exn + string \<times> string" where
  "clause_specific_prompts_json clauses =
     (if list_all (\<lambda>v. str_of_json v \<noteq> None) clauses
      then Inr (clause_specific_prompts (map (\<lambda>v. the (str_of_json v)) clauses))
      else Inl AttributeError)"

section \<open>The result comparator (utils.py, normalize\_rows and query\_execution)\<close>

text \<open>
  A cell of a fetched row. \<open>sqlite3\<close> yields \<open>None\<close>, \<open>int\<close>, \<open>str\<close>, and \<open>float\<close> or \<open>bytes\<close>;
  the code applies only \<open>str\<close> to a cell, so a cell of the last two kinds is given by
  the text that \<open>str\<close> returns for it.
\<close>

datatype cell = CNone | CInt int | CText string | COther string

function str_nat :: "nat \<Rightarrow> string" where
  "str_nat n =
     (if n < 10 then [char_of (48 + n)] else str_nat (n div 10) @ [char_of (48 + n mod 10)])"
  by pat_completeness auto
termination
  by (relation "measure id") auto

definition str_int :: "int \<Rightarrow> string" where
  "str_int i = (if i < 0 then CHR ''-'' # str_nat (nat (- i)) else str_nat (nat i))"

fun py_str :: "cell \<Rightarrow> string" where
  "py_str CNone = ''None''"
| "py_str (CInt i) = str_int i"
| "py_str (CText s) = s"
| "py_str (COther s) = s"

text \<open>
  \<open>sorted([tuple(sorted(map(str, r))) for r in rows])\<close>. Strings are ordered by code
  point, tuples of strings lexicographically: the order of \<open>List_Lexorder\<close> on \<open>char\<close>.
\<close>

definition normalize_rows :: "cell list list \<Rightarrow> string list list" where
  "normalize_rows rows = sort (map (\<lambda>r. sort (map py_str r)) rows)"

text \<open>
  The collaborators of a run, beside the library functions: the file system, the SQL
  engine (\<open>Inl\<close> the text of the exception it raised, \<open>Inr\<close> the rows fetched), the
  reading of the catalogue of a database by \<open>load_schema\<close> (\<open>Inr\<close> the schema text it
  builds, \<open>Inl\<close> the text of the \<open>sqlite3\<close> exception when one of its statements
  raises), the chat completion (\<open>None\<close> when the call raises; it may answer differently
  each time, so it reads and returns a state \<open>'w\<close> of the outside world), and the prompt
  templates of prompts.py.
\<close>

record 'w env = pylib +
  path_exists :: "string \<Rightarrow> bool"
  sqlite :: "string \<Rightarrow> string \<Rightarrow> string + cell list list"
  render_schema :: "string \<Rightarrow> string + string"
  chat :: "string \<Rightarrow> 'w \<Rightarrow> string option \<times> 'w"
  alt_schema_linking_agent_prompt :: "string \<Rightarrow> string \<Rightarrow> string"
  subproblem_agent_prompt :: "string \<Rightarrow> string \<Rightarrow> string"
  query_plan_agent_prompt :: "string \<Rightarrow> string \<Rightarrow> string \<Rightarrow> string"
  sql_agent_prompt :: "string \<Rightarrow> string \<Rightarrow> string \<Rightarrow> string"
  correction_plan_agent_prompt :: "string \<Rightarrow> string \<Rightarrow> string \<Rightarrow> string option \<Rightarrow> string"
  correction_sql_agent_prompt :: "string \<Rightarrow> string \<Rightarrow> string \<Rightarrow> string \<Rightarrow> string"

text \<open>\<open>exec_query\<close> returns the pair (rows, error), one of them \<open>None\<close>.\<close>

definition exec_query ::
  "('w, 'z) env_scheme \<Rightarrow> string \<Rightarrow> string \<Rightarrow> cell list list option \<times> string option" where
  "exec_query env db_file sql =
     (if \<not> path_exists env db_file
      then (None, Some (''Database file does not exist: '' @ db_file))
      else (case sqlite env db_file sql of
              Inr rows \<Rightarrow> (Some rows, None)
            | Inl e \<Rightarrow> (None, Some e)))"

definition db_path :: "string \<Rightarrow> string" where
  "db_path db_id = ''../spider/database/'' @ db_id @ ''/'' @ db_id @ ''.sqlite''"

text \<open>
  \<open>load_schema\<close> returns the empty text when the database file does not exist. Its
  \<open>sqlite3\<close> statements are not guarded: an exception of theirs leaves the function.
\<close>

definition load_schema :: "('w, 'z) env_scheme \<Rightarrow> string \<Rightarrow> exn + string" where
  "load_schema env db_id =
     (if \<not> path_exists env (db_path db_id) then Inr []
      else (case render_schema env db_id of
              Inl message \<Rightarrow> Inl (DatabaseError message)
            | Inr schema \<Rightarrow> Inr schema))"

record sample =
  question :: string
  query :: string
  db_id :: string

definition query_execution ::
  "('w, 'z) env_scheme \<Rightarrow> sample \<Rightarrow> string \<Rightarrow> bool \<times> string option" where
  "query_execution env item sql0 =
     (let sql = postprocess_sql sql0;
          gold_sql = postprocess_sql (query item);
          (gold_rows, gold_err) = exec_query env (db_path (db_id item)) gold_sql;
          (gen_rows, gen_err) = exec_query env (db_path (db_id item)) sql;
          exec_match =
            (if gen_err = None \<and> gold_err = None
             then normalize_rows (the gen_rows) = normalize_rows (the gold_rows)
             else False)
      in (exec_match, gen_err))"

section \<open>The generation adapter (utils.py, call\_agent)\<close>

text \<open>The answer stripped, or the empty string when the call raised.\<close>

definition call_agent :: "('w, 'z) env_scheme \<Rightarrow> string \<Rightarrow> 'w \<Rightarrow> string \<times> 'w" where
  "call_agent env prompt w =
     (case chat env prompt w of
        (Some content, w') \<Rightarrow> (strip content, w')
      | (None, w') \<Rightarrow> ([], w'))"

section \<open>The pipeline (run\_eval.py, evaluate)\<close>

definition MAX_CRITIC_ATTEMPTS :: nat where
  "MAX_CRITIC_ATTEMPTS = 3"

text \<open>
  The variables of the correction loop. \<open>exec_failed\<close> is \<open>not exec_match\<close> wherever the
  loop tests it, so it is not kept apart. The last two fields are not variables of the
  source: \<open>iterations\<close> counts the rounds of the loop that were begun, and \<open>prompts\<close>
  lists the prompts that the loop sent to the agent, in order.
\<close>

record 'w loop_state =
  sql :: string
  exec_match :: bool
  error :: "string option"
  attempts :: nat
  world :: 'w
  iterations :: nat
  prompts :: "string list"

text \<open>One round of the loop body: it ends in \<open>break\<close> or reaches the end of the body.\<close>

datatype 'w round = Break "'w loop_state" | Continue "'w loop_state"

definition correction_round ::
  "('w, 'z) env_scheme \<Rightarrow> sample \<Rightarrow> string \<Rightarrow> 'w loop_state \<Rightarrow> 'w round" where
  "correction_round env item corrected_schema st =
     (let correction_plan_prompt =
            correction_plan_agent_prompt env (question item) (sql st) corrected_schema
              (error st);
          (correction_plan, w1) = call_agent env correction_plan_prompt (world st);
          correction_sql_prompt =
            correction_sql_agent_prompt env (question item) corrected_schema
              correction_plan (sql st);
          (corrected_sql, w2) = call_agent env correction_sql_prompt w1;
          st1 = st\<lparr>world := w2, iterations := iterations st + 1,
                   prompts := prompts st @ [correction_plan_prompt, correction_sql_prompt]\<rparr>
      in if corrected_sql = [] then Break st1
         else
           (let sql' = postprocess_sql corrected_sql;
                (m, e) = query_execution env item sql'
            in Continue (st1\<lparr>sql := sql', exec_match := m, error := e,
                            attempts := attempts st + 1\<rparr>)))"

function correction_loop ::
  "('w, 'z) env_scheme \<Rightarrow> sample \<Rightarrow> string \<Rightarrow> 'w loop_state \<Rightarrow> 'w loop_state" where
  "correction_loop env item corrected_schema st =
     (if \<not> exec_match st \<and> attempts st < MAX_CRITIC_ATTEMPTS then
        (case correction_round env item corrected_schema st of
           Break st' \<Rightarrow> st'
         | Continue st' \<Rightarrow> correction_loop env item corrected_schema st')
      else st)"
  by pat_completeness auto
termination
  by (relation "measure (\<lambda>(env, item, cs, st). MAX_CRITIC_ATTEMPTS - attempts st)")
     (auto simp: correction_round_def Let_def split: prod.splits if_splits)

declare correction_loop.simps [simp del]

text \<open>
  What the \<open>try\<close> block of one sample yields when it does not raise: the SQL agent failed,
  or the sample was scored (the final SQL and the three metrics).
\<close>

datatype outcome =
    SqlAgentFailed
  | Scored string bool bool bool

definition score ::
  "('w, 'z) env_scheme \<Rightarrow> sample \<Rightarrow> 'w loop_state \<Rightarrow> outcome" where
  "score env item st =
     (let gold_sql_processed = postprocess_sql (query item);
          exact = (lower (strip (sql st)) = lower (strip gold_sql_processed));
          (gen_rows, gen_err) = exec_query env (db_path (db_id item)) (sql st)
      in Scored (sql st) exact (gen_err = None) (exec_match st))"

text \<open>The stages after the decomposition has been handled without an exception.\<close>

definition plan_and_generate ::
  "('w, 'z) env_scheme \<Rightarrow> sample \<Rightarrow> string \<Rightarrow> string \<Rightarrow> 'w \<Rightarrow> outcome \<times> 'w" where
  "plan_and_generate env item corrected_schema sub_json w2 =
     (let (plan0, w3) =
            call_agent env
              (query_plan_agent_prompt env (question item) corrected_schema sub_json) w2;
          plan = (if plan0 = [] then ''Generate SQL based on the question'' else plan0);
          (sql0, w4) =
            call_agent env (sql_agent_prompt env (question item) plan corrected_schema) w3
      in if sql0 = [] then (SqlAgentFailed, w4)
         else
           (let sql1 = postprocess_sql sql0;
                (m, e) = query_execution env item sql1;
                st = correction_loop env item corrected_schema
                       \<lparr>sql = sql1, exec_match = m, error = e, attempts = 0, world = w4,
                        iterations = 0, prompts = []\<rparr>
            in (score env item st, world st)))"

text \<open>
  The clauses of the decomposition and their guidance texts; the three calls can raise.
\<close>

definition clause_guidance :: "'z pylib_scheme \<Rightarrow> string \<Rightarrow> exn + string \<times> string" where
  "clause_guidance lib sub_json =
     (case parse_subproblems lib sub_json of
        Inl e \<Rightarrow> Inl e
      | Inr parsed \<Rightarrow>
         (case list_set lib (JArr parsed) of
            Inl e \<Rightarrow> Inl e
          | Inr subproblem_specific_clauses \<Rightarrow>
              clause_specific_prompts_json subproblem_specific_clauses))"

text \<open>The body of the \<open>try\<close> block: \<open>Inl\<close> the exception that reaches the \<open>except\<close> clause.\<close>

definition try_sample ::
  "('w, 'z) env_scheme \<Rightarrow> sample \<Rightarrow> string \<Rightarrow> 'w \<Rightarrow> (exn + outcome) \<times> 'w" where
  "try_sample env item schema w =
     (let (corrected_schema0, w1) =
            call_agent env (alt_schema_linking_agent_prompt env (question item) schema) w;
          corrected_schema = (if corrected_schema0 = [] then schema else corrected_schema0);
          (sub_json_raw, w2) =
            call_agent env (subproblem_agent_prompt env (question item) corrected_schema) w1
      in case (if sub_json_raw = [] then Inr ''{}'' else clean_json sub_json_raw) of
           Inl e \<Rightarrow> (Inl e, w2)
         | Inr sub_json \<Rightarrow>
            (case clause_guidance env sub_json of
               Inl e \<Rightarrow> (Inl e, w2)
             | Inr guidance \<Rightarrow>
                (case plan_and_generate env item corrected_schema sub_json w2 of
                   (out, w') \<Rightarrow> (Inr out, w'))))"

text \<open>An element of \<open>results\<close>; \<open>err\<close> is the exception whose text the entry stores.\<close>

record entry =
  sample_id :: nat
  e_question :: string
  e_db_id :: string
  gold_sql :: string
  gen_sql :: string
  exact_match :: bool
  valid_sql :: bool
  e_exec_match :: bool
  err :: "exn option"

record 'w run =
  total :: nat
  exact_match_count :: nat
  valid_sql_count :: nat
  exec_correct :: nat
  results :: "entry list"
  outside :: 'w

definition new_entry :: "nat \<Rightarrow> sample \<Rightarrow> string \<Rightarrow> bool \<Rightarrow> bool \<Rightarrow> bool \<Rightarrow> exn option \<Rightarrow> entry" where
  "new_entry idx item g em vs xm e =
     \<lparr>sample_id = idx + 1, e_question = question item, e_db_id = db_id item,
      gold_sql = query item, gen_sql = g, exact_match = em, valid_sql = vs,
      e_exec_match = xm, err = e\<rparr>"

text \<open>
  One round of the loop over the samples. \<open>load_schema\<close> is called before the \<open>try\<close>
  block: an exception of its leaves \<open>evaluate\<close> (\<open>Inl\<close>), an empty schema skips the
  sample.
\<close>

definition process_sample ::
  "('w, 'z) env_scheme \<Rightarrow> 'w run \<Rightarrow> nat \<times> sample \<Rightarrow> exn + 'w run" where
  "process_sample env r p =
     (let idx = fst p; item = snd p
      in case load_schema env (db_id item) of
           Inl e \<Rightarrow> Inl e
         | Inr schema \<Rightarrow>
             if schema = [] then Inr r
             else
               (case try_sample env item schema (outside r) of
                  (Inr SqlAgentFailed, w) \<Rightarrow>
                    Inr (r\<lparr>results := results r
                                @ [new_entry idx item [] False False False None],
                           total := total r + 1, outside := w\<rparr>)
                | (Inr (Scored g em vs xm), w) \<Rightarrow>
                    Inr (r\<lparr>exact_match_count := exact_match_count r + (if em then 1 else 0),
                           valid_sql_count := valid_sql_count r + (if vs then 1 else 0),
                           exec_correct := exec_correct r + (if xm then 1 else 0),
                           total := total r + 1,
                           results := results r @ [new_entry idx item g em vs xm None],
                           outside := w\<rparr>)
                | (Inl e, w) \<Rightarrow>
                    Inr (r\<lparr>results := results r
                                @ [new_entry idx item [] False False False (Some e)],
                           total := total r + 1, outside := w\<rparr>)))"

text \<open>The loop: it ends at the first round that raises.\<close>

fun run_samples ::
  "('w, 'z) env_scheme \<Rightarrow> 'w run \<Rightarrow> (nat \<times> sample) list \<Rightarrow> exn + 'w run" where
  "run_samples env r [] = Inr r"
| "run_samples env r (p # ps) =
     (case process_sample env r p of
        Inl e \<Rightarrow> Inl e
      | Inr r' \<Rightarrow> run_samples env r' ps)"

text \<open>\<open>dev[:num_samples]\<close>; a negative bound counts from the end.\<close>

definition py_prefix :: "int \<Rightarrow> 'a list \<Rightarrow> 'a list" where
  "py_prefix n xs = (if 0 \<le> n then take (nat n) xs else take (length xs - nat (- n)) xs)"

text \<open>
  \<open>evaluate\<close> on the loaded samples \<open>dev\<close>: it returns \<open>None\<close> when the data set is empty
  (\<open>evaluate\<close> then returns before the loop), the counters and results after the loop
  otherwise, and \<open>Inl\<close> the exception when the loop raised.
\<close>

definition evaluate ::
  "('w, 'z) env_scheme \<Rightarrow> sample list \<Rightarrow> int \<Rightarrow> 'w \<Rightarrow> exn + 'w run option" where
  "evaluate env dev num_samples w =
     (if dev = [] then Inr None
      else
        (case run_samples env
                \<lparr>total = 0, exact_match_count = 0, valid_sql_count = 0, exec_correct = 0,
                 results = [], outside = w\<rparr>
                (enumerate 0 (py_prefix num_samples dev)) of
           Inl e \<Rightarrow> Inl e
         | Inr r \<Rightarrow> Inr (Some r)))"

section \<open>A scripted environment\<close>

text \<open>
  A small concrete environment on which the pipeline can be evaluated: one database
  \<open>db1\<close>, an engine that knows a handful of statements, a decoder that knows two JSON
  texts, and an agent that answers from a script (the state of the outside world is
  the rest of the script; \<open>None\<close>, or an exhausted script, is a failed call).
\<close>

definition clauses_5 :: string where
  "clauses_5 = ''{'' @ [CHR 0x22] @ ''clauses'' @ [CHR 0x22] @ '': 5}''"

definition scripted_sqlite :: "string \<Rightarrow> string \<Rightarrow> string + cell list list" where
  "scripted_sqlite db_file s =
     (if s = ''select 1'' then Inr [[CInt 1]]
      else if s = ''select 2'' then Inr [[CInt 2]]
      else if s = ''select a, b from t''
        then Inr [[CInt 1, CText ''x''], [CInt 2, CText ''y'']]
      else if s = ''select b, a from t order by a desc''
        then Inr [[CText ''y'', CInt 2], [CText ''x'', CInt 1]]
      else Inl ''syntax error'')"

definition scripted_env :: "(string option list) env" where
  "scripted_env =
     \<lparr>json_loads =
        (\<lambda>s. if s = ''{}'' then Inr (JObj [])
              else if s = clauses_5 then Inr (JObj [(''clauses'', JInt 5)])
              else Inl JSONDecodeError),
      json_dumps = (\<lambda>v. ''{}''),
      list_of_set = remdups,
      path_exists = (\<lambda>p. p = db_path ''db1''),
      sqlite = scripted_sqlite,
      render_schema = (\<lambda>d. Inr ''t: a, b''),
      chat = (\<lambda>p w. case w of [] \<Rightarrow> (None, []) | r # rs \<Rightarrow> (r, rs)),
      alt_schema_linking_agent_prompt = (\<lambda>q s. ''link: '' @ q @ ''; '' @ s),
      subproblem_agent_prompt = (\<lambda>q s. ''split: '' @ q @ ''; '' @ s),
      query_plan_agent_prompt = (\<lambda>q s j. ''plan: '' @ q @ ''; '' @ s @ ''; '' @ j),
      sql_agent_prompt = (\<lambda>q p s. ''sql: '' @ q @ ''; '' @ p @ ''; '' @ s),
      correction_plan_agent_prompt =
        (\<lambda>q c s e. ''fix plan: '' @ q @ ''; '' @ c @ ''; '' @ s @ ''; ''
                    @ (case e of None \<Rightarrow> ''None'' | Some m \<Rightarrow> m)),
      correction_sql_agent_prompt =
        (\<lambda>q s p c. ''fix sql: '' @ q @ ''; '' @ s @ ''; '' @ p @ ''; '' @ c)\<rparr>"

definition sample1 :: "string \<Rightarrow> sample" where
  "sample1 gold = \<lparr>question = ''How many?'', query = gold, db_id = ''db1''\<rparr>"

definition backtick_sql :: string where
  "backtick_sql = ''a '' @ [CHR 0x60] @ ''se'' @ [CHR 0x60] @ ''lect 1''"


definition loop_start :: "string \<Rightarrow> string option list \<Rightarrow> string option list loop_state" where
  "loop_start s script =
     \<lparr>sql = s, exec_match = False, error = None, attempts = 0, world = script,
      iterations = 0, prompts = []\<rparr>"

section \<open>The result comparator: properties\<close>

lemma sort_strings_mset:
  "sort (map py_str r) = sorted_list_of_multiset (image_mset py_str (mset r))"
  by (metis mset_map sorted_list_of_multiset_mset)

lemma canonical_rows_mset:
  "mset (map (\<lambda>r. sort (map py_str r)) rows) =
   image_mset (\<lambda>m. sorted_list_of_multiset (image_mset py_str m)) (mset (map mset rows))"
  by (simp add: sort_strings_mset multiset.map_comp comp_def)

lemma normalize_rows_mset:
  assumes "mset (map mset rows1) = mset (map mset rows2)"
  shows "normalize_rows rows1 = normalize_rows rows2"
proof -
  have "mset (map (\<lambda>r. sort (map py_str r)) rows1) = mset (map (\<lambda>r. sort (map py_str r)) rows2)"
    using assms by (simp only: canonical_rows_mset)
  then show ?thesis
    unfolding normalize_rows_def by (metis sorted_list_of_multiset_mset)
qed

lemma query_execution_both_succeed:
  assumes "exec_query env (db_path (db_id item)) (postprocess_sql (query item)) = (Some gold_rows, None)"
      and "exec_query env (db_path (db_id item)) (postprocess_sql sql0) = (Some gen_rows, None)"
  shows "query_execution env item sql0 = (normalize_rows gen_rows = normalize_rows gold_rows, None)"
  using assms by (simp add: query_execution_def)

text \<open>
  C3. When the reference statement and the candidate both execute without error, the
  comparator declares them equivalent exactly when the canonical forms of their rows are
  equal, the canonical form being the sorted list of the rows, each row the sorted list
  of the texts of its cells. So the verdict does not depend on the order of the rows nor
  on the order of the cells within a row (row lists that agree as multisets of multisets
  of cells are equivalent), but it does depend on how often a row occurs: the rows
  \<open>[(1,), (1,)]\<close> and \<open>[(1,)]\<close> have different canonical forms.
\<close>

theorem comparator_canonical_rows:
  assumes "exec_query env (db_path (db_id item)) (postprocess_sql (query item)) = (Some gold_rows, None)"
      and "exec_query env (db_path (db_id item)) (postprocess_sql sql0) = (Some gen_rows, None)"
  shows "(fst (query_execution env item sql0) \<longleftrightarrow> normalize_rows gen_rows = normalize_rows gold_rows)
       \<and> normalize_rows gen_rows = sort (map (\<lambda>r. sort (map py_str r)) gen_rows)
       \<and> (mset (map mset gen_rows) = mset (map mset gold_rows) \<longrightarrow> fst (query_execution env item sql0))
       \<and> normalize_rows [[CInt 1], [CInt 1]] \<noteq> normalize_rows [[CInt 1]]"
proof -
  have "fst (query_execution env item sql0) \<longleftrightarrow> normalize_rows gen_rows = normalize_rows gold_rows"
    using query_execution_both_succeed [OF assms] by simp
  moreover have "normalize_rows [[CInt 1], [CInt 1]] \<noteq> normalize_rows [[CInt 1]]"
    by (simp add: normalize_rows_def)
  ultimately show ?thesis
    using normalize_rows_mset [of gen_rows gold_rows] by (simp add: normalize_rows_def)
qed

theorem comparator_canonical_rows_witness:
  "exec_query scripted_env (db_path (db_id (sample1 ''SELECT a, b FROM t;'')))
     (postprocess_sql (query (sample1 ''SELECT a, b FROM t;'')))
     = (Some [[CInt 1, CText ''x''], [CInt 2, CText ''y'']], None)
   \<and> exec_query scripted_env (db_path (db_id (sample1 ''SELECT a, b FROM t;'')))
     (postprocess_sql ''select b, a from t order by a desc'')
     = (Some [[CText ''y'', CInt 2], [CText ''x'', CInt 1]], None)
   \<and> mset (map mset [[CText ''y'', CInt 2], [CText ''x'', CInt 1]])
     = mset (map mset [[CInt 1, CText ''x''], [CInt 2, CText ''y'']])
   \<and> fst (query_execution scripted_env (sample1 ''SELECT a, b FROM t;'')
            ''select b, a from t order by a desc'')"
proof -
  have h1: "exec_query scripted_env (db_path (db_id (sample1 ''SELECT a, b FROM t;'')))
     (postprocess_sql (query (sample1 ''SELECT a, b FROM t;'')))
     = (Some [[CInt 1, CText ''x''], [CInt 2, CText ''y'']], None)"
    by code_simp
  have h2: "exec_query scripted_env (db_path (db_id (sample1 ''SELECT a, b FROM t;'')))
     (postprocess_sql ''select b, a from t order by a desc'')
     = (Some [[CText ''y'', CInt 2], [CText ''x'', CInt 1]], None)"
    by code_simp
  have h3: "mset (map mset [[CText ''y'', CInt 2], [CText ''x'', CInt 1]])
     = mset (map mset [[CInt 1, CText ''x''], [CInt 2, CText ''y'']])"
    by (simp add: add_mset_commute)
  from comparator_canonical_rows [OF h1 h2] h3
  have "fst (query_execution scripted_env (sample1 ''SELECT a, b FROM t;'')
            ''select b, a from t order by a desc'')"
    by blast
  with h1 h2 h3 show ?thesis
    by blast
qed

section \<open>The correction loop: properties\<close>

lemma round_Break:
  assumes "correction_round env item cs st = Break st'"
  shows "sql st' = sql st" "exec_match st' = exec_match st" "error st' = error st"
    "attempts st' = attempts st" "iterations st' = iterations st + 1"
    "\<exists>p. prompts st' = prompts st
            @ [correction_plan_agent_prompt env (question item) (sql st) cs (error st), p]"
  using assms unfolding correction_round_def Let_def
  by (auto split: prod.splits if_splits)

lemma round_Continue:
  assumes "correction_round env item cs st = Continue st'"
  shows "attempts st' = attempts st + 1" "iterations st' = iterations st + 1"
    "(exec_match st', error st') = query_execution env item (sql st')"
    "\<exists>p. prompts st' = prompts st
            @ [correction_plan_agent_prompt env (question item) (sql st) cs (error st), p]"
  using assms unfolding correction_round_def Let_def
  by (auto split: prod.splits if_splits)

lemma loop_exit:
  "\<not> (\<not> exec_match st \<and> attempts st < MAX_CRITIC_ATTEMPTS)
   \<Longrightarrow> correction_loop env item cs st = st"
  by (subst correction_loop.simps) auto

lemma loop_Break:
  "\<not> exec_match st \<Longrightarrow> attempts st < MAX_CRITIC_ATTEMPTS
   \<Longrightarrow> correction_round env item cs st = Break st'
   \<Longrightarrow> correction_loop env item cs st = st'"
  by (subst correction_loop.simps) simp

lemma loop_Continue:
  "\<not> exec_match st \<Longrightarrow> attempts st < MAX_CRITIC_ATTEMPTS
   \<Longrightarrow> correction_round env item cs st = Continue st'
   \<Longrightarrow> correction_loop env item cs st = correction_loop env item cs st'"
  by (subst correction_loop.simps) simp

lemma correction_loop_iterations:
  "iterations (correction_loop env item cs st)
   \<le> iterations st + (MAX_CRITIC_ATTEMPTS - attempts st)"
proof (induction env item cs st rule: correction_loop.induct)
  case (1 env item cs st)
  show ?case
  proof (cases "\<not> exec_match st \<and> attempts st < MAX_CRITIC_ATTEMPTS")
    case False
    then show ?thesis by (simp add: loop_exit)
  next
    case True
    show ?thesis
    proof (cases "correction_round env item cs st")
      case (Break st')
      have "iterations (correction_loop env item cs st) = iterations st + 1"
        using True Break round_Break(5) [OF Break] by (simp add: loop_Break)
      moreover from True have "attempts st < MAX_CRITIC_ATTEMPTS"
        by simp
      ultimately show ?thesis
        by arith
    next
      case (Continue st')
      have "iterations (correction_loop env item cs st)
            \<le> iterations st' + (MAX_CRITIC_ATTEMPTS - attempts st')"
        using True Continue "1.IH" [OF True Continue] by (simp add: loop_Continue)
      moreover from True have "attempts st < MAX_CRITIC_ATTEMPTS"
        by simp
      moreover note round_Continue(1,2) [OF Continue]
      ultimately show ?thesis
        by arith
    qed
  qed
qed

lemma correction_loop_attempts:
  "attempts st \<le> MAX_CRITIC_ATTEMPTS
   \<Longrightarrow> attempts (correction_loop env item cs st) \<le> MAX_CRITIC_ATTEMPTS"
proof (induction env item cs st rule: correction_loop.induct)
  case (1 env item cs st)
  show ?case
  proof (cases "\<not> exec_match st \<and> attempts st < MAX_CRITIC_ATTEMPTS")
    case False
    then show ?thesis using "1.prems" by (simp add: loop_exit)
  next
    case True
    show ?thesis
    proof (cases "correction_round env item cs st")
      case (Break st')
      then show ?thesis
        using True "1.prems" round_Break(4) [OF Break] by (simp add: loop_Break)
    next
      case (Continue st')
      have "attempts st' \<le> MAX_CRITIC_ATTEMPTS"
        using True round_Continue(1) [OF Continue] by simp
      from "1.IH" [OF True Continue this] True Continue show ?thesis
        by (simp add: loop_Continue)
    qed
  qed
qed

lemma correction_loop_prompts:
  "\<exists>ps. prompts (correction_loop env item cs st) = prompts st @ ps"
proof (induction env item cs st rule: correction_loop.induct)
  case (1 env item cs st)
  show ?case
  proof (cases "\<not> exec_match st \<and> attempts st < MAX_CRITIC_ATTEMPTS")
    case False
    then show ?thesis by (simp add: loop_exit)
  next
    case True
    show ?thesis
    proof (cases "correction_round env item cs st")
      case (Break st')
      then show ?thesis
        using True round_Break(6) [OF Break] by (auto simp add: loop_Break)
    next
      case (Continue st')
      from "1.IH" [OF True Continue] round_Continue(4) [OF Continue] True show ?thesis
        by (auto simp add: loop_Continue [OF _ _ Continue])
    qed
  qed
qed

lemma correction_loop_iterations_mono:
  "iterations st \<le> iterations (correction_loop env item cs st)"
proof (induction env item cs st rule: correction_loop.induct)
  case (1 env item cs st)
  show ?case
  proof (cases "\<not> exec_match st \<and> attempts st < MAX_CRITIC_ATTEMPTS")
    case False
    then show ?thesis by (simp add: loop_exit)
  next
    case True
    show ?thesis
    proof (cases "correction_round env item cs st")
      case (Break st')
      then show ?thesis
        using True round_Break(5) [OF Break] by (auto simp add: loop_Break)
    next
      case (Continue st')
      from "1.IH" [OF True Continue] round_Continue(2) [OF Continue] True show ?thesis
        by (auto simp add: loop_Continue [OF _ _ Continue])
    qed
  qed
qed

lemma correction_loop_entered:
  assumes "\<not> exec_match st" "attempts st < MAX_CRITIC_ATTEMPTS"
  shows "iterations st + 1 \<le> iterations (correction_loop env item cs st)
       \<and> (\<exists>ps. prompts (correction_loop env item cs st) =
             prompts st
             @ correction_plan_agent_prompt env (question item) (sql st) cs (error st) # ps)"
proof (cases "correction_round env item cs st")
  case (Break st')
  then show ?thesis
    using assms round_Break(5,6) [OF Break] by (auto simp add: loop_Break)
next
  case (Continue st')
  from correction_loop_iterations_mono [of st' env item cs]
       correction_loop_prompts [of env item cs st'] round_Continue(2,4) [OF Continue] assms
  show ?thesis
    by (auto simp add: loop_Continue [OF _ _ Continue])
qed

text \<open>
  C4. The correction loop is a total function (its definition comes with a termination
  proof), and from the state in which the pipeline starts it (no attempt made) it begins
  at most 3 rounds and ends with at most 3 attempts counted, whatever the agent answers
  and whatever the executions give: in particular when the agent keeps returning
  non-empty SQL, be it SQL that was tried before.
\<close>

theorem correction_loop_at_most_three_rounds:
  "iterations (correction_loop env item cs
      \<lparr>sql = s, exec_match = m, error = e, attempts = 0, world = w, iterations = 0,
       prompts = []\<rparr>) \<le> 3
   \<and> attempts (correction_loop env item cs
      \<lparr>sql = s, exec_match = m, error = e, attempts = 0, world = w, iterations = 0,
       prompts = []\<rparr>) \<le> 3"
  using correction_loop_iterations [of env item cs
      "\<lparr>sql = s, exec_match = m, error = e, attempts = 0, world = w, iterations = 0,
        prompts = []\<rparr>"]
    correction_loop_attempts [of
      "\<lparr>sql = s, exec_match = m, error = e, attempts = 0, world = w, iterations = 0,
        prompts = []\<rparr>" env item cs]
  by (simp add: MAX_CRITIC_ATTEMPTS_def)

text \<open>
  C10. When the reference SQL fails to execute and the candidate executes, the
  comparator returns (False, None); the correction loop started on this verdict is
  entered (it begins at least one round), and the first prompt it sends is the
  correction-plan prompt built with \<open>None\<close> in the place of the error message.
\<close>

theorem gold_failure_gives_no_feedback:
  assumes "snd (exec_query env (db_path (db_id item)) (postprocess_sql (query item))) \<noteq> None"
      and "snd (exec_query env (db_path (db_id item)) (postprocess_sql sql1)) = None"
  shows "query_execution env item sql1 = (False, None) \<and>
         (let st = correction_loop env item cs
                     \<lparr>sql = sql1, exec_match = fst (query_execution env item sql1),
                      error = snd (query_execution env item sql1), attempts = 0,
                      world = w, iterations = 0, prompts = []\<rparr>
          in 1 \<le> iterations st
             \<and> hd (prompts st) = correction_plan_agent_prompt env (question item) sql1 cs None)"
proof -
  have q: "query_execution env item sql1 = (False, None)"
    using assms by (auto simp: query_execution_def Let_def split: prod.splits)
  let ?st0 = "\<lparr>sql = sql1, exec_match = False, error = None, attempts = 0, world = w,
               iterations = 0, prompts = []\<rparr>"
  have "iterations ?st0 + 1 \<le> iterations (correction_loop env item cs ?st0)
       \<and> (\<exists>ps. prompts (correction_loop env item cs ?st0) =
             prompts ?st0
             @ correction_plan_agent_prompt env (question item) (sql ?st0) cs (error ?st0) # ps)"
    by (rule correction_loop_entered) (simp_all add: MAX_CRITIC_ATTEMPTS_def)
  then show ?thesis
    using q by (auto simp: Let_def)
qed

theorem gold_failure_gives_no_feedback_witness:
  "snd (exec_query scripted_env (db_path (db_id (sample1 ''SELECT c FROM missing'')))
          (postprocess_sql (query (sample1 ''SELECT c FROM missing'')))) \<noteq> None
   \<and> snd (exec_query scripted_env (db_path (db_id (sample1 ''SELECT c FROM missing'')))
          (postprocess_sql ''select 1'')) = None
   \<and> query_execution scripted_env (sample1 ''SELECT c FROM missing'') ''select 1''
       = (False, None)"
proof -
  have h1: "snd (exec_query scripted_env (db_path (db_id (sample1 ''SELECT c FROM missing'')))
          (postprocess_sql (query (sample1 ''SELECT c FROM missing'')))) \<noteq> None"
    by code_simp
  have h2: "snd (exec_query scripted_env (db_path (db_id (sample1 ''SELECT c FROM missing'')))
          (postprocess_sql ''select 1'')) = None"
    by code_simp
  from gold_failure_gives_no_feedback [OF h1 h2] h1 h2 show ?thesis
    by blast
qed

text \<open>
  C5. The claim fails for the correction-plan call: when it fails and the
  correction-SQL call then succeeds, the loop goes on and replaces the candidate.
  Here the plan call fails (the script answers \<open>None\<close>), the candidate \<open>select 2\<close>
  is replaced by \<open>select 1\<close>, and an attempt is counted.
\<close>

theorem plan_failure_exits_loop_counterexample:
  "fst (call_agent scripted_env
          (correction_plan_agent_prompt scripted_env (question (sample1 ''select 1''))
             ''select 2'' ''t: a, b'' None)
          [None, Some ''select 1'']) = []
   \<and> sql (correction_loop scripted_env (sample1 ''select 1'') ''t: a, b''
            (loop_start ''select 2'' [None, Some ''select 1''])) = ''select 1''
   \<and> attempts (correction_loop scripted_env (sample1 ''select 1'') ''t: a, b''
            (loop_start ''select 2'' [None, Some ''select 1''])) = 1"
  by code_simp

text \<open>
  C5, amended. In a round of the correction loop the correction-plan call is made, and
  then the correction-SQL call with whatever plan came back (the empty text when the
  plan call failed). If the correction-SQL call fails, the loop exits at once and
  retains the candidate, its verdict, its error and the attempt count; otherwise the loop
  goes on with the normalized answer as the new candidate.
\<close>

theorem correction_sql_failure_exits_loop:
  assumes "\<not> exec_match st" and "attempts st < MAX_CRITIC_ATTEMPTS"
      and "call_agent env
             (correction_plan_agent_prompt env (question item) (sql st) cs (error st))
             (world st) = (plan, w1)"
      and "call_agent env
             (correction_sql_agent_prompt env (question item) cs plan (sql st)) w1
           = (corrected, w2)"
  shows "if corrected = []
         then sql (correction_loop env item cs st) = sql st
            \<and> exec_match (correction_loop env item cs st) = exec_match st
            \<and> error (correction_loop env item cs st) = error st
            \<and> attempts (correction_loop env item cs st) = attempts st
            \<and> world (correction_loop env item cs st) = w2
            \<and> iterations (correction_loop env item cs st) = iterations st + 1
         else correction_loop env item cs st =
              correction_loop env item cs
                (st\<lparr>world := w2, iterations := iterations st + 1,
                    prompts := prompts st
                      @ [correction_plan_agent_prompt env (question item) (sql st) cs (error st),
                         correction_sql_agent_prompt env (question item) cs plan (sql st)],
                    sql := postprocess_sql corrected,
                    exec_match := fst (query_execution env item (postprocess_sql corrected)),
                    error := snd (query_execution env item (postprocess_sql corrected)),
                    attempts := attempts st + 1\<rparr>)"
proof (cases "corrected = []")
  case True
  have "correction_round env item cs st =
        Break (st\<lparr>world := w2, iterations := iterations st + 1,
                  prompts := prompts st
                    @ [correction_plan_agent_prompt env (question item) (sql st) cs (error st),
                       correction_sql_agent_prompt env (question item) cs plan (sql st)]\<rparr>)"
    using assms(3,4) True by (simp add: correction_round_def Let_def)
  from loop_Break [OF assms(1,2) this] True show ?thesis
    by simp
next
  case False
  have "correction_round env item cs st =
        Continue (st\<lparr>world := w2, iterations := iterations st + 1,
                    prompts := prompts st
                      @ [correction_plan_agent_prompt env (question item) (sql st) cs (error st),
                         correction_sql_agent_prompt env (question item) cs plan (sql st)],
                    sql := postprocess_sql corrected,
                    exec_match := fst (query_execution env item (postprocess_sql corrected)),
                    error := snd (query_execution env item (postprocess_sql corrected)),
                    attempts := attempts st + 1\<rparr>)"
    using assms(3,4) False
    by (simp add: correction_round_def Let_def split: prod.splits)
  from loop_Continue [OF assms(1,2) this] False show ?thesis
    by simp
qed

theorem correction_sql_failure_exits_loop_witness:
  "\<not> exec_match (loop_start ''select 2'' [Some ''use 1'', None])
   \<and> attempts (loop_start ''select 2'' [Some ''use 1'', None]) < MAX_CRITIC_ATTEMPTS
   \<and> sql (correction_loop scripted_env (sample1 ''select 1'') ''t: a, b''
            (loop_start ''select 2'' [Some ''use 1'', None])) = ''select 2''
   \<and> attempts (correction_loop scripted_env (sample1 ''select 1'') ''t: a, b''
            (loop_start ''select 2'' [Some ''use 1'', None])) = 0"
proof -
  have h1: "\<not> exec_match (loop_start ''select 2'' [Some ''use 1'', None])"
    by (simp add: loop_start_def)
  have h2: "attempts (loop_start ''select 2'' [Some ''use 1'', None]) < MAX_CRITIC_ATTEMPTS"
    by (simp add: loop_start_def MAX_CRITIC_ATTEMPTS_def)
  have h3: "call_agent scripted_env
             (correction_plan_agent_prompt scripted_env (question (sample1 ''select 1''))
                (sql (loop_start ''select 2'' [Some ''use 1'', None])) ''t: a, b''
                (error (loop_start ''select 2'' [Some ''use 1'', None])))
             (world (loop_start ''select 2'' [Some ''use 1'', None])) = (''use 1'', [None])"
    by code_simp
  have h4: "call_agent scripted_env
             (correction_sql_agent_prompt scripted_env (question (sample1 ''select 1''))
                ''t: a, b'' ''use 1'' (sql (loop_start ''select 2'' [Some ''use 1'', None])))
             [None] = ([], [])"
    by code_simp
  from correction_sql_failure_exits_loop [OF h1 h2 h3 h4] h1 h2 show ?thesis
    by (simp add: loop_start_def)
qed

section \<open>The clause policy table: properties\<close>

lemma append_if_eq:
  "append_if b texts acc =
   (fst acc @ (if b then fst texts else []), snd acc @ (if b then snd texts else []))"
  by (simp add: append_if_def)

lemma clause_step_append:
  "clause_step acc c =
   (fst acc @ fst (clause_step ([], []) c), snd acc @ snd (clause_step ([], []) c))"
  unfolding clause_step_def Let_def
  by (simp only: append_if_eq fst_conv snd_conv append_Nil append_assoc)

lemma foldl_clause_step:
  "foldl clause_step acc cs =
   (fst acc @ concat (map (\<lambda>c. fst (clause_step ([], []) c)) cs),
    snd acc @ concat (map (\<lambda>c. snd (clause_step ([], []) c)) cs))"
proof (induction cs arbitrary: acc)
  case Nil
  then show ?case by simp
next
  case (Cons c cs)
  show ?case
    by (subst foldl_Cons, subst Cons.IH, subst (1 2) clause_step_append) simp
qed

text \<open>
  C6. The claim fails: the texts are appended in the order of the input list, so two
  orders of the same tags give different results.
\<close>

theorem clause_order_counterexample:
  "clause_specific_prompts [''LIMIT'', ''JOIN''] \<noteq> clause_specific_prompts [''JOIN'', ''LIMIT'']"
  by code_simp

text \<open>
  C6, amended. \<open>clause_specific_prompts\<close> returns the concatenation, in the order of the
  input list, of the planning texts and of the generation texts that each tag
  contributes by itself. For a permutation of the input the same pairs of texts are
  appended, each as often, in the permuted order.
\<close>

theorem clause_specific_prompts_follow_input_order:
  assumes "mset clauses1 = mset clauses2"
  shows "clause_specific_prompts clauses1 =
           (concat (map (\<lambda>c. fst (clause_step ([], []) c)) clauses1),
            concat (map (\<lambda>c. snd (clause_step ([], []) c)) clauses1))
       \<and> clause_specific_prompts clauses2 =
           (concat (map (\<lambda>c. fst (clause_step ([], []) c)) clauses2),
            concat (map (\<lambda>c. snd (clause_step ([], []) c)) clauses2))
       \<and> mset (map (clause_step ([], [])) clauses1) = mset (map (clause_step ([], [])) clauses2)"
proof -
  have "mset (map (clause_step ([], [])) clauses1) = mset (map (clause_step ([], [])) clauses2)"
    using assms by (metis mset_map)
  then show ?thesis
    by (simp add: clause_specific_prompts_def foldl_clause_step)
qed

theorem clause_specific_prompts_follow_input_order_witness:
  "mset [''LIMIT'', ''JOIN''] = mset [''JOIN'', ''LIMIT'']
   \<and> mset (map (clause_step ([], [])) [''LIMIT'', ''JOIN''])
     = mset (map (clause_step ([], [])) [''JOIN'', ''LIMIT''])
   \<and> clause_specific_prompts [''LIMIT'', ''JOIN''] =
       (fst (clause_step ([], []) ''LIMIT'') @ fst (clause_step ([], []) ''JOIN''),
        snd (clause_step ([], []) ''LIMIT'') @ snd (clause_step ([], []) ''JOIN''))"
proof -
  have h: "mset [''LIMIT'', ''JOIN''] = mset [''JOIN'', ''LIMIT'']"
    by (simp add: add_mset_commute)
  from clause_specific_prompts_follow_input_order [OF h] h show ?thesis
    by simp
qed

section \<open>The clause detector: properties\<close>

text \<open>
  C7. The detector is not total. On the text \<open>{"clauses": 5}\<close>, which \<open>json.loads\<close> decodes
  to an object whose \<open>clauses\<close> field is the number 5, Method 1 takes the number as the
  clauses, and \<open>list(set(5))\<close> raises \<open>TypeError\<close>, which \<open>parse_subproblems\<close> does not
  catch.
\<close>

theorem parse_subproblems_raises_on_number:
  "json_loads scripted_env clauses_5 = Inr (JObj [(''clauses'', JInt 5)])
   \<and> parse_subproblems scripted_env clauses_5 = Inl TypeError"
  by code_simp

section \<open>Scoring: properties\<close>

lemma correction_loop_verdict:
  "(exec_match st, error st) = query_execution env item (sql st)
   \<Longrightarrow> (exec_match (correction_loop env item cs st), error (correction_loop env item cs st))
       = query_execution env item (sql (correction_loop env item cs st))"
proof (induction env item cs st rule: correction_loop.induct)
  case (1 env item cs st)
  show ?case
  proof (cases "\<not> exec_match st \<and> attempts st < MAX_CRITIC_ATTEMPTS")
    case False
    then show ?thesis using "1.prems" by (simp add: loop_exit)
  next
    case True
    show ?thesis
    proof (cases "correction_round env item cs st")
      case (Break st')
      have "correction_loop env item cs st = st'"
        using True Break by (simp add: loop_Break)
      then show ?thesis
        using "1.prems" round_Break(1,2,3) [OF Break] by simp
    next
      case (Continue st')
      have "correction_loop env item cs st = correction_loop env item cs st'"
        using True Continue by (simp add: loop_Continue)
      then show ?thesis
        using "1.IH" [OF True Continue round_Continue(3) [OF Continue]] by simp
    qed
  qed
qed

lemma query_execution_match_executes:
  "fst (query_execution env item s)
   \<Longrightarrow> snd (exec_query env (db_path (db_id item)) (postprocess_sql s)) = None"
  by (auto simp: query_execution_def Let_def split: prod.splits if_splits)

lemma plan_and_generate_Scored:
  assumes "plan_and_generate env item cs sub_json w = (Scored g em vs xm, w')"
  shows "\<exists>st0. (exec_match st0, error st0) = query_execution env item (sql st0)
           \<and> g = sql (correction_loop env item cs st0)
           \<and> vs = (snd (exec_query env (db_path (db_id item)) g) = None)
           \<and> xm = exec_match (correction_loop env item cs st0)"
proof -
  obtain plan0 w3 where p: "call_agent env
      (query_plan_agent_prompt env (question item) cs sub_json) w = (plan0, w3)"
    by (cases "call_agent env (query_plan_agent_prompt env (question item) cs sub_json) w")
  obtain sql0 w4 where s: "call_agent env
      (sql_agent_prompt env (question item)
         (if plan0 = [] then ''Generate SQL based on the question'' else plan0) cs) w3
      = (sql0, w4)"
    by (cases "call_agent env
      (sql_agent_prompt env (question item)
         (if plan0 = [] then ''Generate SQL based on the question'' else plan0) cs) w3")
  obtain m e where q: "query_execution env item (postprocess_sql sql0) = (m, e)"
    by (cases "query_execution env item (postprocess_sql sql0)")
  let ?st0 = "\<lparr>sql = postprocess_sql sql0, exec_match = m, error = e, attempts = 0,
               world = w4, iterations = 0, prompts = []\<rparr>"
  have ne: "sql0 \<noteq> []"
    using assms p s by (auto simp: plan_and_generate_def Let_def)
  have "score env item (correction_loop env item cs ?st0) = Scored g em vs xm"
    using assms p s q ne by (simp add: plan_and_generate_def Let_def)
  then have "g = sql (correction_loop env item cs ?st0)
           \<and> vs = (snd (exec_query env (db_path (db_id item)) g) = None)
           \<and> xm = exec_match (correction_loop env item cs ?st0)"
    by (auto simp: score_def Let_def split: prod.splits)
  moreover have "(exec_match ?st0, error ?st0) = query_execution env item (sql ?st0)"
    using q by simp
  ultimately show ?thesis
    by blast
qed

text \<open>
  C9. The claim fails. The comparator executes the normalized form of the candidate,
  the valid-SQL metric the candidate as it is, and the normalizer can still change its
  own output: here the agent answers \<open>a `se`lect 1\<close>, the candidate becomes
  \<open>a select 1\<close>, which the engine rejects, while its normalized form \<open>select 1\<close> matches
  the reference. The entry has \<open>exec_match\<close> true and \<open>valid_sql\<close> false.
\<close>

theorem exec_match_without_valid_sql_counterexample:
  "evaluate scripted_env [sample1 ''SELECT 1''] 1
     [Some ''t: a, b'', Some ''{}'', Some ''first select'', Some backtick_sql]
   = Inr (Some \<lparr>total = 1, exact_match_count = 0, valid_sql_count = 0, exec_correct = 1,
       results =
         [\<lparr>sample_id = 1, e_question = ''How many?'', e_db_id = ''db1'',
           gold_sql = ''SELECT 1'', gen_sql = ''a select 1'', exact_match = False,
           valid_sql = False, e_exec_match = True, err = None\<rparr>],
       outside = []\<rparr>)"
  by code_simp

text \<open>
  C9, amended. For every sample result that the scoring stage finalizes, \<open>valid_sql\<close>
  is true exactly when executing \<open>gen_sql\<close> on the sample's database returns no error,
  and \<open>exec_match\<close> is the verdict of the comparator on \<open>gen_sql\<close>; so \<open>exec_match\<close>
  implies that the normalized form of \<open>gen_sql\<close> executes without error, and it implies
  \<open>valid_sql\<close> when normalizing \<open>gen_sql\<close> leaves it unchanged.
\<close>

theorem scored_metrics:
  assumes "plan_and_generate env item cs sub_json w = (Scored g em vs xm, w')"
  shows "(vs \<longleftrightarrow> snd (exec_query env (db_path (db_id item)) g) = None)
       \<and> (xm \<longleftrightarrow> fst (query_execution env item g))
       \<and> (xm \<longrightarrow> snd (exec_query env (db_path (db_id item)) (postprocess_sql g)) = None)
       \<and> (xm \<and> postprocess_sql g = g \<longrightarrow> vs)"
proof -
  from plan_and_generate_Scored [OF assms] obtain st0 where
    inv: "(exec_match st0, error st0) = query_execution env item (sql st0)"
    and g: "g = sql (correction_loop env item cs st0)"
    and vs: "vs = (snd (exec_query env (db_path (db_id item)) g) = None)"
    and xm: "xm = exec_match (correction_loop env item cs st0)"
    by blast
  have "(exec_match (correction_loop env item cs st0), error (correction_loop env item cs st0))
        = query_execution env item g"
    using correction_loop_verdict [OF inv] g by simp
  then have x: "xm = fst (query_execution env item g)"
    using xm by (metis fst_conv)
  have e: "xm \<longrightarrow> snd (exec_query env (db_path (db_id item)) (postprocess_sql g)) = None"
    using x query_execution_match_executes by blast
  from vs x e show ?thesis
    by auto
qed

theorem scored_metrics_witness:
  "plan_and_generate scripted_env (sample1 ''SELECT 1'') ''t: a, b'' ''{}''
     [Some ''first select'', Some ''select 1'']
     = (Scored ''select 1'' True True True, [])
   \<and> postprocess_sql ''select 1'' = ''select 1''
   \<and> snd (exec_query scripted_env (db_path (db_id (sample1 ''SELECT 1''))) ''select 1'') = None
   \<and> fst (query_execution scripted_env (sample1 ''SELECT 1'') ''select 1'')"
proof -
  have h: "plan_and_generate scripted_env (sample1 ''SELECT 1'') ''t: a, b'' ''{}''
     [Some ''first select'', Some ''select 1'']
     = (Scored ''select 1'' True True True, [])"
    by code_simp
  have p: "postprocess_sql ''select 1'' = ''select 1''"
    by code_simp
  from scored_metrics [OF h] h p show ?thesis
    by simp
qed

section \<open>The run: properties\<close>








section \<open>The decomposition stage: properties\<close>

lemma parse_subproblems_text_fallback:
  assumes "json_loads lib sub_json = Inl JSONDecodeError"
  shows "parse_subproblems lib sub_json =
         Inr (if extract_clauses_from_text sub_json = [] then []
              else list_of_set lib (map JStr (extract_clauses_from_text sub_json)))"
proof -
  have "list_all hashable (map JStr (extract_clauses_from_text sub_json))"
    by (simp add: list_all_iff)
  then show ?thesis
    using assms by (simp add: parse_subproblems_def deduplicate_def list_set_def)
qed

lemma strings_guidance:
  assumes "\<forall>xs. set (list_of_set lib xs) \<subseteq> set xs"
      and "\<forall>v \<in> set parsed. \<exists>s. v = JStr s"
  shows "\<exists>g. (case list_set lib (JArr parsed) of
                 Inl e \<Rightarrow> Inl e
               | Inr cl \<Rightarrow> clause_specific_prompts_json cl) = Inr g"
proof -
  have h: "list_all hashable parsed"
    using assms(2) by (auto simp: list_all_iff)
  have "\<forall>v \<in> set (list_of_set lib parsed). \<exists>s. v = JStr s"
    using assms by blast
  then have "list_all (\<lambda>v. str_of_json v \<noteq> None) (list_of_set lib parsed)"
    by (auto simp: list_all_iff)
  then show ?thesis
    using h by (simp add: list_set_def clause_specific_prompts_json_def)
qed

lemma text_fallback_guidance:
  assumes "json_loads lib sub_json = Inl JSONDecodeError"
      and "\<forall>xs. set (list_of_set lib xs) \<subseteq> set xs"
  shows "\<exists>g. clause_guidance lib sub_json = Inr g"
proof -
  let ?parsed = "if extract_clauses_from_text sub_json = [] then []
                 else list_of_set lib (map JStr (extract_clauses_from_text sub_json))"
  have "set (list_of_set lib (map JStr (extract_clauses_from_text sub_json)))
        \<subseteq> set (map JStr (extract_clauses_from_text sub_json))"
    using assms(2) by blast
  then have "\<forall>v \<in> set ?parsed. \<exists>s. v = JStr s"
    by auto
  from strings_guidance [OF assms(2) this] show ?thesis
    by (simp only: clause_guidance_def parse_subproblems_text_fallback [OF assms(1)] sum.case)
qed

text \<open>
  C8. The claim fails for a decomposition output without braces: \<open>clean_json\<close> is
  called before the detector and raises \<open>ValueError\<close>, and the sample is finalized as
  a failure that carries the message. Here the agent answers the decomposition stage
  with plain text.
\<close>

theorem decomposition_without_braces_counterexample:
  "evaluate scripted_env [sample1 ''SELECT 1''] 1
     [Some ''t: a, b'', Some ''We need to SELECT and use WHERE'']
   = Inr (Some \<lparr>total = 1, exact_match_count = 0, valid_sql_count = 0, exec_correct = 0,
       results =
         [\<lparr>sample_id = 1, e_question = ''How many?'', e_db_id = ''db1'',
           gold_sql = ''SELECT 1'', gen_sql = [], exact_match = False,
           valid_sql = False, e_exec_match = False,
           err = Some (ValueError ''No JSON object found'')\<rparr>],
       outside = []\<rparr>)"
  by code_simp

text \<open>
  C8, amended. When the decomposition output holds an opening and a closing brace, so
  that \<open>clean_json\<close> returns a text, and \<open>json.loads\<close> raises \<open>JSONDecodeError\<close> on this
  text, the detector falls back to text-keyword extraction on it, the clause guidance is
  computed without an exception, and the \<open>try\<close> block of the sample goes on to the
  planning and generation stages: what it yields is what they yield. (Here
  \<open>list(set(xs))\<close> is taken to list elements of \<open>xs\<close> only.)
\<close>

theorem malformed_decomposition_with_braces_recovers:
  assumes "call_agent env (alt_schema_linking_agent_prompt env (question item) schema) w
           = (linked, w1)"
      and "call_agent env
             (subproblem_agent_prompt env (question item)
                (if linked = [] then schema else linked)) w1
           = (raw, w2)"
      and "raw \<noteq> []"
      and "clean_json raw = Inr sub_json"
      and "json_loads env sub_json = Inl JSONDecodeError"
      and "\<forall>xs. set (list_of_set env xs) \<subseteq> set xs"
  shows "parse_subproblems env sub_json =
           Inr (if extract_clauses_from_text sub_json = [] then []
                else list_of_set env (map JStr (extract_clauses_from_text sub_json)))
       \<and> (\<exists>g. clause_guidance env sub_json = Inr g)
       \<and> try_sample env item schema w =
           (Inr (fst (plan_and_generate env item (if linked = [] then schema else linked)
                        sub_json w2)),
            snd (plan_and_generate env item (if linked = [] then schema else linked)
                   sub_json w2))"
proof -
  from text_fallback_guidance [OF assms(5,6)] obtain g where
    g: "clause_guidance env sub_json = Inr g"
    by blast
  have "try_sample env item schema w =
           (Inr (fst (plan_and_generate env item (if linked = [] then schema else linked)
                        sub_json w2)),
            snd (plan_and_generate env item (if linked = [] then schema else linked)
                   sub_json w2))"
    using assms(1-4) g by (simp add: try_sample_def Let_def split: prod.splits)
  then show ?thesis
    using g parse_subproblems_text_fallback [OF assms(5)]
    by blast
qed

theorem malformed_decomposition_with_braces_recovers_witness:
  "clean_json ''Use {SELECT and WHERE}'' = Inr ''{SELECT and WHERE}''
   \<and> json_loads scripted_env ''{SELECT and WHERE}'' = Inl JSONDecodeError
   \<and> parse_subproblems scripted_env ''{SELECT and WHERE}''
     = Inr (list_of_set scripted_env [JStr ''SELECT'', JStr ''WHERE''])
   \<and> fst (try_sample scripted_env (sample1 ''SELECT 1'') ''t: a, b''
            [Some ''t: a, b'', Some ''Use {SELECT and WHERE}''])
     = Inr (fst (plan_and_generate scripted_env (sample1 ''SELECT 1'') ''t: a, b''
                   ''{SELECT and WHERE}'' []))"
proof -
  have h1: "call_agent scripted_env
              (alt_schema_linking_agent_prompt scripted_env
                 (question (sample1 ''SELECT 1'')) ''t: a, b'')
              [Some ''t: a, b'', Some ''Use {SELECT and WHERE}'']
            = (''t: a, b'', [Some ''Use {SELECT and WHERE}''])"
    by code_simp
  have h2: "call_agent scripted_env
              (subproblem_agent_prompt scripted_env (question (sample1 ''SELECT 1''))
                 (if ''t: a, b'' = [] then ''t: a, b'' else ''t: a, b''))
              [Some ''Use {SELECT and WHERE}'']
            = (''Use {SELECT and WHERE}'', [])"
    by code_simp
  have h3: "''Use {SELECT and WHERE}'' \<noteq> []"
    by simp
  have h4: "clean_json ''Use {SELECT and WHERE}'' = Inr ''{SELECT and WHERE}''"
    by code_simp
  have h5: "json_loads scripted_env ''{SELECT and WHERE}'' = Inl JSONDecodeError"
    by code_simp
  have h6: "\<forall>xs. set (list_of_set scripted_env xs) \<subseteq> set xs"
    by (simp add: scripted_env_def)
  have x: "extract_clauses_from_text ''{SELECT and WHERE}'' = [''SELECT'', ''WHERE'']"
    by code_simp
  from malformed_decomposition_with_braces_recovers [OF h1 h2 h3 h4 h5 h6] h4 h5 x
  show ?thesis
    by simp
qed

section \<open>The SQL normalizer: properties\<close>

lemma lower_char_idem: "lower_char (lower_char c) = lower_char c"
proof -
  have "of_char c < (256::nat)" by simp
  then show ?thesis
    unfolding lower_char_def Let_def
    by (auto simp: of_char_of)
qed

lemma space_chars:
  "is_space CHR '' ''" "\<not> is_space CHR '',''" "\<not> is_space CHR '';''"
  "lower_char CHR '' '' = CHR '' ''"
  by (simp_all add: is_space_def lower_char_def)

lemma strip_fences_id: "CHR 0x60 \<notin> set s \<Longrightarrow> strip_fences s = s"
  by (induction s) (auto simp: startswith_def fence_def)

lemma set_strip_fences: "set (strip_fences s) \<subseteq> set s"
proof (induction s rule: strip_fences.induct)
  case 1
  then show ?case by simp
next
  case (2 c cs)
  show ?case
  proof (cases "startswith (c # cs) (fence @ ''sql'')")
    case True
    then have "set (strip_fences (c # cs)) \<subseteq> set (drop 5 cs)"
      using "2.IH"(1) by simp
    also have "\<dots> \<subseteq> set cs"
      by (rule set_drop_subset)
    finally show ?thesis by auto
  next
    case False
    show ?thesis
    proof (cases "startswith (c # cs) fence")
      case True
      then have "set (strip_fences (c # cs)) \<subseteq> set (drop 2 cs)"
        using False "2.IH"(2) by simp
      also have "\<dots> \<subseteq> set cs"
        by (rule set_drop_subset)
      finally show ?thesis by auto
    next
      case nf: False
      then show ?thesis
        using False "2.IH"(3) by auto
    qed
  qed
qed

lemma set_strip_sql_label: "set (strip_sql_label s) \<subseteq> set s"
  by (auto simp: strip_sql_label_def dest!: set_dropWhileD in_set_dropD)

lemma rstrip_decomp: "\<exists>b. t = rstrip t @ b"
proof -
  have "rev t = takeWhile is_space (rev t) @ dropWhile is_space (rev t)"
    by simp
  then have "t = rev (dropWhile is_space (rev t)) @ rev (takeWhile is_space (rev t))"
    by (metis rev_append rev_rev_ident)
  then show ?thesis
    unfolding rstrip_def by blast
qed

lemma strip_decomp: "\<exists>a b. s = a @ strip s @ b"
proof -
  obtain b where "dropWhile is_space s = strip s @ b"
    using rstrip_decomp [of "dropWhile is_space s"] unfolding strip_def by blast
  then have "s = takeWhile is_space s @ strip s @ b"
    by (metis takeWhile_dropWhile_id)
  then show ?thesis by blast
qed

lemma set_strip: "set (strip s) \<subseteq> set s"
proof -
  obtain a b where "s = a @ strip s @ b"
    using strip_decomp by blast
  then have "set s = set a \<union> set (strip s) \<union> set b"
    by (metis set_append Un_assoc)
  then show ?thesis by blast
qed

lemma successively_strip: "successively P s \<Longrightarrow> successively P (strip s)"
proof -
  assume h: "successively P s"
  obtain a b where "s = a @ strip s @ b"
    using strip_decomp by blast
  with h have "successively P (a @ strip s @ b)" by simp
  then show ?thesis
    by (simp add: successively_append_iff)
qed

lemma rstrip_last: "rstrip t \<noteq> [] \<Longrightarrow> \<not> is_space (last (rstrip t))"
proof -
  assume "rstrip t \<noteq> []"
  then have r: "dropWhile is_space (rev t) \<noteq> []"
    by (simp add: rstrip_def)
  show ?thesis
    using hd_dropWhile [OF r] by (simp add: rstrip_def last_rev)
qed

lemma strip_stripped:
  assumes "strip s \<noteq> []"
  shows "\<not> is_space (hd (strip s)) \<and> \<not> is_space (last (strip s))"
proof -
  let ?t = "dropWhile is_space s"
  obtain b where b: "?t = strip s @ b"
    using rstrip_decomp [of ?t] unfolding strip_def by blast
  then have "?t \<noteq> []"
    using assms by auto
  then have "\<not> is_space (hd ?t)"
    by (rule hd_dropWhile)
  moreover have "hd ?t = hd (strip s)"
    using b assms by (metis hd_append2)
  moreover have "\<not> is_space (last (strip s))"
    using rstrip_last [of ?t] assms by (simp add: strip_def)
  ultimately show ?thesis by simp
qed

lemma strip_id:
  assumes "s = [] \<or> (\<not> is_space (hd s) \<and> \<not> is_space (last s))"
  shows "strip s = s"
proof (cases "s = []")
  case True
  then show ?thesis by (simp add: strip_def rstrip_def)
next
  case False
  then have h: "\<not> is_space (hd s)" "\<not> is_space (last s)"
    using assms by auto
  have d: "dropWhile is_space s = s"
    using h(1) by (simp add: dropWhile_eq_self_iff)
  have "dropWhile is_space (rev s) = rev s"
    using h(2) False by (simp add: dropWhile_eq_self_iff hd_rev)
  then show ?thesis
    using d by (simp add: strip_def rstrip_def)
qed


lemma set_collapse_ws: "set (collapse_ws s) \<subseteq> insert CHR '' '' (set s)"
proof (induction s rule: collapse_ws.induct)
  case 1
  then show ?case by simp
next
  case (2 c cs)
  show ?case
  proof (cases "is_space c")
    case True
    have "set (dropWhile is_space cs) \<subseteq> set cs"
      by (auto dest: set_dropWhileD)
    with "2.IH"(1) [OF True] True show ?thesis
      by auto
  next
    case False
    with "2.IH"(2) [OF False] show ?thesis
      by auto
  qed
qed

lemma collapse_ws_hd:
  "s \<noteq> [] \<Longrightarrow> \<not> is_space (hd s) \<Longrightarrow> collapse_ws s = hd s # collapse_ws (tl s)"
  by (cases s) simp_all

lemma collapse_ws_spaces: "\<forall>c \<in> set (collapse_ws s). is_space c \<longrightarrow> c = CHR '' ''"
proof (induction s rule: collapse_ws.induct)
  case 1
  then show ?case by simp
next
  case (2 c cs)
  then show ?case by (cases "is_space c") auto
qed

lemma collapse_ws_successively:
  "successively (\<lambda>a b. \<not> (is_space a \<and> is_space b)) (collapse_ws s)"
proof (induction s rule: collapse_ws.induct)
  case 1
  then show ?case by simp
next
  case (2 c cs)
  show ?case
  proof (cases "is_space c")
    case True
    let ?d = "dropWhile is_space cs"
    have ih: "successively (\<lambda>a b. \<not> (is_space a \<and> is_space b)) (collapse_ws ?d)"
      using "2.IH"(1) [OF True] .
    show ?thesis
    proof (cases "?d = []")
      case e: True
      then have "collapse_ws (c # cs) = [CHR '' '']"
        using True by (simp del: dropWhile_eq_Nil_conv)
      then show ?thesis by simp
    next
      case ne: False
      then have "\<not> is_space (hd ?d)"
        by (rule hd_dropWhile)
      then have "collapse_ws ?d = hd ?d # collapse_ws (tl ?d)"
        using ne by (rule collapse_ws_hd [rotated])
      then show ?thesis
        using True ih \<open>\<not> is_space (hd ?d)\<close> by (simp add: successively_Cons)
    qed
  next
    case False
    then show ?thesis
      using "2.IH"(2) [OF False] by (simp add: successively_Cons)
  qed
qed

lemma collapse_ws_id:
  "\<forall>c \<in> set s. is_space c \<longrightarrow> c = CHR '' '' \<Longrightarrow>
   successively (\<lambda>a b. \<not> (is_space a \<and> is_space b)) s \<Longrightarrow> collapse_ws s = s"
proof (induction s)
  case Nil
  then show ?case by simp
next
  case (Cons c cs)
  have ih: "collapse_ws cs = cs"
    using Cons by (auto simp: successively_Cons)
  show ?case
  proof (cases "is_space c")
    case True
    then have "c = CHR '' ''"
      using Cons.prems(1) by simp
    moreover have "cs = [] \<or> \<not> is_space (hd cs)"
      using Cons.prems(2) True by (auto simp: successively_Cons)
    then have "dropWhile is_space cs = cs"
      by (simp add: dropWhile_eq_self_iff)
    ultimately show ?thesis
      using True ih by simp
  next
    case False
    then show ?thesis using ih by simp
  qed
qed

lemma set_space_comma: "set (space_comma s) \<subseteq> set s"
proof (induction s rule: space_comma.induct)
  case 1
  then show ?case by simp
next
  case (2 c cs)
  let ?d = "dropWhile is_space cs"
  show ?case
  proof (cases "is_space c \<and> first_char ?d = Some CHR '',''")
    case True
    then obtain t where t: "?d = CHR '','' # t"
      by (auto simp: first_char_def split: list.splits)
    have "set ?d \<subseteq> set cs"
      by (auto dest: set_dropWhileD)
    with t have "CHR '','' \<in> set cs" "set t \<subseteq> set cs"
      by auto
    with "2.IH"(1) [OF True] t True show ?thesis
      by auto
  next
    case False
    with "2.IH"(2) [OF False] show ?thesis
      by auto
  qed
qed

lemma space_comma_hd:
  "s \<noteq> [] \<Longrightarrow> \<not> is_space (hd s) \<Longrightarrow> space_comma s = hd s # space_comma (tl s)"
  by (cases s) simp_all

lemma space_comma_successively:
  "successively (\<lambda>a b. \<not> (is_space a \<and> is_space b)) s \<Longrightarrow>
   successively (\<lambda>a b. is_space a \<longrightarrow> \<not> is_space b \<and> b \<noteq> CHR '','') (space_comma s)"
proof (induction s rule: space_comma.induct)
  case 1
  then show ?case by simp
next
  case (2 c cs)
  let ?d = "dropWhile is_space cs"
  have tail: "successively (\<lambda>a b. \<not> (is_space a \<and> is_space b)) cs"
    using "2.prems" by (auto simp: successively_Cons)
  have d: "is_space c \<Longrightarrow> ?d = cs"
    using "2.prems" by (auto simp: successively_Cons dropWhile_eq_self_iff)
  show ?case
  proof (cases "is_space c \<and> first_char ?d = Some CHR '',''")
    case True
    then obtain t where t: "cs = CHR '','' # t"
      using d by (auto simp: first_char_def split: list.splits)
    have "successively (\<lambda>a b. \<not> (is_space a \<and> is_space b)) t"
      using tail t by (auto simp: successively_Cons)
    then have "successively (\<lambda>a b. is_space a \<longrightarrow> \<not> is_space b \<and> b \<noteq> CHR '','') (space_comma t)"
      using "2.IH"(1) [OF True] d t True by simp
    moreover have "space_comma (c # cs) = CHR '','' # space_comma t"
      using True d t by simp
    ultimately show ?thesis
      by (simp add: successively_Cons space_chars)
  next
    case False
    have ih: "successively (\<lambda>a b. is_space a \<longrightarrow> \<not> is_space b \<and> b \<noteq> CHR '','') (space_comma cs)"
      using "2.IH"(2) [OF False tail] .
    have eq: "space_comma (c # cs) = c # space_comma cs"
      using False by auto
    show ?thesis
    proof (cases "is_space c \<and> cs \<noteq> []")
      case sp: True
      then have nh: "\<not> is_space (hd cs)"
        using "2.prems" by (auto simp: successively_Cons)
      have "first_char cs \<noteq> Some CHR '',''"
        using False sp d by auto
      then have nc: "hd cs \<noteq> CHR '',''"
        using sp by (cases cs) (auto simp: first_char_def)
      have "space_comma cs = hd cs # space_comma (tl cs)"
        using sp nh by (simp add: space_comma_hd)
      then show ?thesis
        using ih nh nc by (simp only: eq) (simp add: successively_Cons)
    next
      case nsp: False
      then show ?thesis
        using ih by (simp only: eq) (auto simp: successively_Cons)
    qed
  qed
qed

lemma space_comma_id:
  "successively (\<lambda>a b. is_space a \<longrightarrow> \<not> is_space b \<and> b \<noteq> CHR '','') s \<Longrightarrow> space_comma s = s"
proof (induction s)
  case Nil
  then show ?case by simp
next
  case (Cons c cs)
  have ih: "space_comma cs = cs"
    using Cons by (auto simp: successively_Cons)
  show ?case
  proof (cases "is_space c \<and> cs \<noteq> []")
    case True
    then have h: "\<not> is_space (hd cs)" "hd cs \<noteq> CHR '',''"
      using Cons.prems by (auto simp: successively_Cons)
    then have "dropWhile is_space cs = cs"
      by (simp add: dropWhile_eq_self_iff)
    moreover have "first_char cs \<noteq> Some CHR '',''"
      using True h(2) by (cases cs) (auto simp: first_char_def)
    ultimately show ?thesis
      using ih by simp
  next
    case False
    then show ?thesis
      using ih by (auto simp: first_char_def)
  qed
qed

lemma space_comma_last:
  "s \<noteq> [] \<Longrightarrow> \<not> is_space (last s) \<Longrightarrow>
   space_comma s \<noteq> [] \<and> last (space_comma s) = last s"
proof (induction s rule: space_comma.induct)
  case 1
  then show ?case by simp
next
  case (2 c cs)
  let ?d = "dropWhile is_space cs"
  show ?case
  proof (cases "is_space c \<and> first_char ?d = Some CHR '',''")
    case True
    then obtain t where t: "?d = CHR '','' # t"
      by (auto simp: first_char_def split: list.splits)
    have cs: "cs = takeWhile is_space cs @ CHR '','' # t"
      using t by (metis takeWhile_dropWhile_id)
    show ?thesis
    proof (cases "t = []")
      case e: True
      have "last cs = CHR '',''"
        using cs e by (metis last_snoc append_Cons append_Nil last_appendR list.distinct(1))
      then show ?thesis
        using True t e cs by auto
    next
      case ne: False
      have "last cs = last t"
        using cs ne by (metis last_appendR last_ConsR list.distinct(1))
      moreover have "cs \<noteq> []"
        using cs by auto
      ultimately have "\<not> is_space (last t)"
        using "2.prems" by simp
      from "2.IH"(1) [OF True] ne this t have "space_comma t \<noteq> [] \<and> last (space_comma t) = last t"
        by simp
      then show ?thesis
        using True t \<open>last cs = last t\<close> \<open>cs \<noteq> []\<close> by simp
    qed
  next
    case False
    have eq: "space_comma (c # cs) = c # space_comma cs"
      using False by auto
    show ?thesis
    proof (cases "cs = []")
      case True
      show ?thesis unfolding eq using True by simp
    next
      case ne: False
      then have "\<not> is_space (last cs)"
        using "2.prems" by simp
      from "2.IH"(2) [OF False ne this] ne show ?thesis
        by (simp only: eq) simp
    qed
  qed
qed


lemma normal_is_fixed:
  assumes lo: "\<forall>c \<in> set y. lower_char c = c"
      and bt: "CHR 0x60 \<notin> set y"
      and sp: "\<forall>c \<in> set y. is_space c \<longrightarrow> c = CHR '' ''"
      and su: "successively (\<lambda>a b. is_space a \<longrightarrow> \<not> is_space b \<and> b \<noteq> CHR '','') y"
      and st: "y = [] \<or> (\<not> is_space (hd y) \<and> \<not> is_space (last y))"
      and h1: "\<not> (y \<noteq> [] \<and> last y = CHR '';'')"
      and h2: "\<not> startswith y ''sql''"
      and h3: "sql_start y = None \<or> sql_start y = Some 0"
  shows "postprocess_sql y = y"
proof -
  have s1: "(case sql_start y of Some i \<Rightarrow> drop i y | None \<Rightarrow> y) = y"
    using h3 by auto
  have s2: "lower (strip y) = y"
    using lo by (simp add: strip_id [OF st] lower_def map_idI)
  have s3: "strip_fences y = y"
    using bt by (rule strip_fences_id)
  have s4: "strip_sql_label y = y"
    using h2 by (simp add: strip_sql_label_def)
  have s6: "strip_backticks y = y"
    using bt by (auto simp: strip_backticks_def filter_id_conv)
  have "successively (\<lambda>a b. \<not> (is_space a \<and> is_space b)) y"
    using su by (rule successively_mono) blast
  then have s7: "strip (collapse_ws y) = y"
    using sp by (simp add: collapse_ws_id strip_id [OF st])
  have s8: "space_comma y = y"
    using su by (rule space_comma_id)
  show ?thesis
    unfolding postprocess_sql_def Let_def s1 s2 s3 s4 s6 s7 s8
    using h1 by auto
qed

lemma tail_normal:
  assumes lo: "\<forall>c \<in> set s6. lower_char c = c"
      and bt: "CHR 0x60 \<notin> set s6"
      and y: "y = (if space_comma (strip (collapse_ws s6)) \<noteq> []
                      \<and> last (space_comma (strip (collapse_ws s6))) = CHR '';''
                   then strip (butlast (space_comma (strip (collapse_ws s6))))
                   else space_comma (strip (collapse_ws s6)))"
  shows "(\<forall>c \<in> set y. lower_char c = c) \<and> CHR 0x60 \<notin> set y
       \<and> (\<forall>c \<in> set y. is_space c \<longrightarrow> c = CHR '' '')
       \<and> successively (\<lambda>a b. is_space a \<longrightarrow> \<not> is_space b \<and> b \<noteq> CHR '','') y
       \<and> (y = [] \<or> (\<not> is_space (hd y) \<and> \<not> is_space (last y)))"
proof -
  let ?z7 = "strip (collapse_ws s6)"
  let ?z8 = "space_comma ?z7"
  let ?P = "\<lambda>a b. is_space a \<longrightarrow> \<not> is_space b \<and> b \<noteq> CHR '',''"
  have sub7: "set ?z7 \<subseteq> set (collapse_ws s6)"
    by (rule set_strip)
  have sub8: "set ?z8 \<subseteq> set ?z7"
    by (rule set_space_comma)
  have suby: "set y \<subseteq> set ?z8"
  proof -
    have "set (strip (butlast ?z8)) \<subseteq> set (butlast ?z8)"
      by (rule set_strip)
    moreover have "set (butlast ?z8) \<subseteq> set ?z8"
      by (auto dest: in_set_butlastD)
    ultimately show ?thesis
      using y by (auto split: if_splits)
  qed
  have sub: "set y \<subseteq> set (collapse_ws s6)"
    using suby sub8 sub7 by blast
  have a: "\<forall>c \<in> set y. lower_char c = c"
    using sub set_collapse_ws [of s6] lo space_chars(4) by blast
  have b: "CHR 0x60 \<notin> set y"
  proof
    assume "CHR 0x60 \<in> set y"
    then have "CHR 0x60 \<in> insert CHR '' '' (set s6)"
      using sub set_collapse_ws [of s6] by blast
    then show False using bt by simp
  qed
  have c: "\<forall>c \<in> set y. is_space c \<longrightarrow> c = CHR '' ''"
    using sub collapse_ws_spaces [of s6] by blast
  have "successively (\<lambda>a b. \<not> (is_space a \<and> is_space b)) ?z7"
    using collapse_ws_successively by (rule successively_strip)
  then have s8: "successively ?P ?z8"
    by (rule space_comma_successively)
  have st8: "?z8 = [] \<or> (\<not> is_space (hd ?z8) \<and> \<not> is_space (last ?z8))"
  proof (cases "?z7 = []")
    case True
    then show ?thesis by simp
  next
    case False
    from strip_stripped [OF False] have h: "\<not> is_space (hd ?z7)" "\<not> is_space (last ?z7)"
      by simp_all
    have "?z8 = hd ?z7 # space_comma (tl ?z7)"
      using False h(1) by (rule space_comma_hd)
    then have "hd ?z8 = hd ?z7"
      by simp
    moreover have "last ?z8 = last ?z7"
      using space_comma_last [OF False h(2)] by simp
    ultimately show ?thesis
      using h by simp
  qed
  show ?thesis
  proof (cases "?z8 \<noteq> [] \<and> last ?z8 = CHR '';''")
    case True
    then have yy: "y = strip (butlast ?z8)"
      using y by simp
    have "?z8 = butlast ?z8 @ [last ?z8]"
      using True by (metis append_butlast_last_id)
    then have "successively ?P (butlast ?z8 @ [last ?z8])"
      using s8 by simp
    then have "successively ?P (butlast ?z8)"
      by (simp add: successively_append_iff)
    then have d: "successively ?P y"
      unfolding yy by (rule successively_strip)
    have e: "y = [] \<or> (\<not> is_space (hd y) \<and> \<not> is_space (last y))"
      unfolding yy using strip_stripped [of "butlast ?z8"] by blast
    from a b c d e show ?thesis by blast
  next
    case False
    then have yy: "y = ?z8"
      using y by auto
    from a b c s8 st8 show ?thesis
      unfolding yy [symmetric] by blast
  qed
qed

lemma postprocess_sql_normal:
  "(\<forall>c \<in> set (postprocess_sql x). lower_char c = c) \<and> CHR 0x60 \<notin> set (postprocess_sql x)
   \<and> (\<forall>c \<in> set (postprocess_sql x). is_space c \<longrightarrow> c = CHR '' '')
   \<and> successively (\<lambda>a b. is_space a \<longrightarrow> \<not> is_space b \<and> b \<noteq> CHR '','') (postprocess_sql x)
   \<and> (postprocess_sql x = []
       \<or> (\<not> is_space (hd (postprocess_sql x)) \<and> \<not> is_space (last (postprocess_sql x))))"
proof -
  let ?s1 = "case sql_start x of Some i \<Rightarrow> drop i x | None \<Rightarrow> x"
  let ?s2 = "lower (strip ?s1)"
  let ?s5 = "strip_fences (strip_sql_label (strip_fences ?s2))"
  let ?s6 = "strip_backticks ?s5"
  have "set ?s5 \<subseteq> set ?s2"
    using set_strip_fences [of "strip_sql_label (strip_fences ?s2)"]
      set_strip_sql_label [of "strip_fences ?s2"] set_strip_fences [of ?s2]
    by blast
  then have sub: "set ?s6 \<subseteq> set ?s2"
    by (auto simp: strip_backticks_def)
  have "\<forall>c \<in> set ?s2. lower_char c = c"
    by (auto simp: lower_def lower_char_idem)
  then have lo: "\<forall>c \<in> set ?s6. lower_char c = c"
    using sub by blast
  have bt: "CHR 0x60 \<notin> set ?s6"
    by (simp add: strip_backticks_def)
  have y: "postprocess_sql x = (if space_comma (strip (collapse_ws ?s6)) \<noteq> []
                      \<and> last (space_comma (strip (collapse_ws ?s6))) = CHR '';''
                   then strip (butlast (space_comma (strip (collapse_ws ?s6))))
                   else space_comma (strip (collapse_ws ?s6)))"
    by (simp add: postprocess_sql_def Let_def)
  from tail_normal [OF lo bt y] show ?thesis .
qed

text \<open>
  C2. The normalizer is not idempotent: it strips one trailing semicolon, so a text
  that ends in two of them takes two passes.
\<close>

theorem postprocess_sql_not_idempotent_counterexample:
  "postprocess_sql ''select 1;;'' = ''select 1;''
   \<and> postprocess_sql (postprocess_sql ''select 1;;'') = ''select 1''
   \<and> postprocess_sql (postprocess_sql ''select 1;;'') \<noteq> postprocess_sql ''select 1;;''"
  by code_simp

text \<open>
  C2, amended. \<open>normalize(normalize(x)) == normalize(x)\<close> holds for every input \<open>x\<close> whose
  normal form does not end in a semicolon, does not begin with the label \<open>sql\<close>, and
  holds a statement keyword (\<open>select\<close> or \<open>insert\<close> as a whole word) at most at its very
  beginning. (The output of the normalizer is always in lower case, free of backticks,
  with single spaces only, none before a comma and none at either end; the three
  conditions are what a second pass could still act on.)
\<close>

theorem postprocess_sql_idempotent_on_settled_output:
  assumes "\<not> (postprocess_sql x \<noteq> [] \<and> last (postprocess_sql x) = CHR '';'')"
      and "\<not> startswith (postprocess_sql x) ''sql''"
      and "sql_start (postprocess_sql x) = None \<or> sql_start (postprocess_sql x) = Some 0"
  shows "postprocess_sql (postprocess_sql x) = postprocess_sql x"
  using postprocess_sql_normal [of x] assms
  by (intro normal_is_fixed) blast+

theorem postprocess_sql_idempotent_on_settled_output_witness:
  "postprocess_sql ''Query: SELECT  a , b FROM t ;'' = ''select a, b from t''
   \<and> sql_start (postprocess_sql ''Query: SELECT  a , b FROM t ;'') = Some 0
   \<and> postprocess_sql (postprocess_sql ''Query: SELECT  a , b FROM t ;'')
     = postprocess_sql ''Query: SELECT  a , b FROM t ;''"
proof -
  have v: "postprocess_sql ''Query: SELECT  a , b FROM t ;'' = ''select a, b from t''"
    by code_simp
  have h1: "\<not> (postprocess_sql ''Query: SELECT  a , b FROM t ;'' \<noteq> []
              \<and> last (postprocess_sql ''Query: SELECT  a , b FROM t ;'') = CHR '';'')"
    by code_simp
  have h2: "\<not> startswith (postprocess_sql ''Query: SELECT  a , b FROM t ;'') ''sql''"
    by code_simp
  have s: "sql_start (postprocess_sql ''Query: SELECT  a , b FROM t ;'') = Some 0"
    by code_simp
  then have h3: "sql_start (postprocess_sql ''Query: SELECT  a , b FROM t ;'') = None
                 \<or> sql_start (postprocess_sql ''Query: SELECT  a , b FROM t ;'') = Some 0"
    by simp
  from postprocess_sql_idempotent_on_settled_output [OF h1 h2 h3] v s show ?thesis
    by simp
qed

end
